theory Spec2Isabelle
  imports Complex_Main "HOL-Library.Char_ord" "HOL-Library.List_Lexorder"
begin

section \<open>Data model (types.ts)\<close>

datatype ClefType = treble | bass

datatype GameMode = single | chords | beams

text \<open>The fifteen key roots of the string union \<open>KeyRoot\<close>, in the order of its declaration:
  'C' 'G' 'D' 'A' 'E' 'B' 'F#' 'C#' 'F' 'Bb' 'Eb' 'Ab' 'Db' 'Gb' 'Cb'.\<close>

datatype KeyRoot =
  Key_C | Key_G | Key_D | Key_A | Key_E | Key_B | Key_Fs | Key_Cs
  | Key_F | Key_Bb | Key_Eb | Key_Ab | Key_Db | Key_Gb | Key_Cb

datatype KeyType = major | minor

text \<open>The accidental of a note is '#', 'b', 'n' or null: an optional \<open>Accidental\<close>.\<close>

datatype Accidental = Sharp | Flat | Natural

text \<open>The note durations 'w', 'h', 'q', '8' and '16'.\<close>

datatype Duration = Dur_w | Dur_h | Dur_q | Dur_8 | Dur_16

datatype Status = pending | correct | incorrect

record Note =
  midi :: int
  name :: string
  octave :: int
  accidental :: "Accidental option"
  duration :: "Duration option"

text \<open>The fields \<open>id\<close> and \<open>notes\<close> of an \<open>ExerciseItem\<close> are \<open>item_id\<close> and \<open>item_notes\<close> here
  (\<open>id\<close> is the identity function of HOL, \<open>notes\<close> a keyword). An optional field that is
  absent is \<open>None\<close>.\<close>

record ExerciseItem =
  item_id :: string
  item_notes :: "Note list"
  status :: Status
  userInput :: "int list option"
  isBeamGroup :: "bool option"
  beamGroupIndex :: "int option"

record GameSettings =
  clef :: ClefType
  useAccidentals :: bool
  mode :: GameMode
  keyRoot :: KeyRoot
  keyType :: KeyType

text \<open>The only exception the generator can raise: a method call on \<open>undefined\<close>, when a
  note table is read outside its twelve entries.\<close>

datatype error = TypeError

section \<open>Arithmetic and the random source\<close>

text \<open>JavaScript's \<open>%\<close> on integers: the remainder takes the sign of the dividend.\<close>

definition js_rem :: "int \<Rightarrow> int \<Rightarrow> int" where
  "js_rem a b = sgn a * (\<bar>a\<bar> mod \<bar>b\<bar>)"

text \<open>Reading an array at an integer index: \<open>undefined\<close> (here \<open>None\<close>) outside the array.\<close>

definition js_index :: "'a list \<Rightarrow> int \<Rightarrow> 'a option" where
  "js_index xs i = (if 0 \<le> i \<and> i < int (length xs) then Some (xs ! nat i) else None)"

text \<open>JavaScript numbers are IEEE-754 doubles, taken here as the rational numbers they denote.
  Sums, differences and floors of integers of magnitude below \<open>2\<^sup>5\<^sup>3\<close> are exact; a product or a
  decimal literal is rounded to the nearest double, ties to even. \<open>round_double\<close> is that
  rounding for magnitudes below \<open>2\<^sup>1\<^sup>0\<^sup>2\<^sup>4\<close> (no overflow to infinity): the fraction \<open>a / b\<close> is
  scaled to \<open>s * 2\<^sup>e\<close> with \<open>2\<^sup>5\<^sup>2 \<le> s < 2\<^sup>5\<^sup>3\<close> (or \<open>e = -1074\<close> for a subnormal result), and \<open>s\<close> is
  rounded to an integer, a tie to the even one. The numerals are \<open>2\<^sup>5\<^sup>3\<close> and \<open>2\<^sup>5\<^sup>2\<close>.\<close>

definition rne_frac :: "int \<Rightarrow> int \<Rightarrow> int" where
  "rne_frac a b =
     (let f = a div b; r = a mod b
      in if 2 * r < b then f else if b < 2 * r then f + 1 else if even f then f else f + 1)"

function scale_down :: "int \<Rightarrow> int \<Rightarrow> int \<Rightarrow> int \<times> int \<times> int" where
  "scale_down a b e =
     (if 0 < b \<and> 9007199254740992 * b \<le> a then scale_down a (2 * b) (e + 1) else (a, b, e))"
  by pat_completeness auto
termination
  by (relation "measure (\<lambda>(a, b, e). nat (a - 9007199254740992 * b + 1))") auto

function scale_up :: "int \<Rightarrow> int \<Rightarrow> int \<Rightarrow> int \<times> int \<times> int" where
  "scale_up a b e =
     (if a < 4503599627370496 * b \<and> - 1074 < e then scale_up (2 * a) b (e - 1) else (a, b, e))"
  by pat_completeness auto
termination
  by (relation "measure (\<lambda>(a, b, e). nat (e + 1074))") auto

definition weight :: "int \<Rightarrow> rat" where
  "weight e = (if 0 \<le> e then of_int (2 ^ nat e) else 1 / of_int (2 ^ nat (- e)))"

definition round_nonneg :: "rat \<Rightarrow> rat" where
  "round_nonneg q =
     (case quotient_of q of
        (a, b) \<Rightarrow>
          if a = 0 then 0
          else case scale_down a b 0 of
                 (a1, b1, e1) \<Rightarrow>
                   (case scale_up a1 b1 e1 of
                      (a2, b2, e) \<Rightarrow> of_int (rne_frac a2 b2) * weight e))"

definition round_double :: "rat \<Rightarrow> rat" where
  "round_double q = (if q < 0 then - round_nonneg (- q) else round_nonneg q)"

definition is_double :: "rat \<Rightarrow> bool" where
  "is_double q = (round_double q = q)"

text \<open>The ambient generator \<open>Math.random()\<close> is made explicit: a random source is the infinite
  sequence of the values its successive calls return, and every function that draws takes the
  number of draws made so far and returns the new count. Each draw is a double in [0, 1).
  The identifiers that \<open>uuidv4()\<close> returns are a second sequence, read at the number of items
  pushed so far (the function is called once per pushed item).\<close>

type_synonym rng = "nat \<Rightarrow> rat"

definition unit_double :: "rat \<Rightarrow> bool" where
  "unit_double r = (is_double r \<and> 0 \<le> r \<and> r < 1)"

definition double_draws :: "rng \<Rightarrow> bool" where
  "double_draws rs = (\<forall>k. unit_double (rs k))"

text \<open>Where only a lower bound on the integers drawn matters, the draws need not be doubles:
  it is enough that they lie in [0, 1).\<close>

definition unit_draws :: "rng \<Rightarrow> bool" where
  "unit_draws rs = (\<forall>k. 0 \<le> rs k \<and> rs k < 1)"

text \<open>A periodic random source, for concrete runs.\<close>

definition cycle_draws :: "rat list \<Rightarrow> rng" where
  "cycle_draws xs k = xs ! (k mod length xs)"

text \<open>Draws for concrete runs: the double 0.6944444444444444, the doubles nearest to 3/7 and to
  1/3, and dyadic fractions.\<close>

definition draws_a :: "rat list" where
  "draws_a = [3127499741229511 / 4503599627370496, 1 / 2, 7720456504063707 / 18014398509481984, 7 / 8,
              6004799503160661 / 18014398509481984, 0, 3 / 4]"

definition draws_b :: "rat list" where
  "draws_b = [6004799503160661 / 18014398509481984, 1 / 4, 3127499741229511 / 4503599627370496, 15 / 16, 0,
              7720456504063707 / 18014398509481984, 5 / 8, 1 / 2, 3 / 4, 1 / 8, 7 / 8]"

definition draws_c :: "rat list" where
  "draws_c = [1 / 2, 6004799503160661 / 18014398509481984, 7 / 8, 7720456504063707 / 18014398509481984, 1 / 8]"

definition TREBLE_MIN :: int where "TREBLE_MIN = 53"
definition TREBLE_MAX :: int where "TREBLE_MAX = 88"
definition BASS_MIN :: int where "BASS_MIN = 29"
definition BASS_MAX :: int where "BASS_MAX = 67"

definition getRandomInt :: "rat \<Rightarrow> int \<Rightarrow> int \<Rightarrow> int" where
  "getRandomInt r mn mx = \<lfloor>round_double (r * of_int (mx - mn + 1))\<rfloor> + mn"

section \<open>Key signature logic\<close>

text \<open>The parameter \<open>root\<close> of the source (a key root) is \<open>kroot\<close> here, and the variable \<open>root\<close>
  of the chord loop (a pitch) is \<open>croot\<close>: \<open>root\<close> is a constant of HOL.\<close>

text \<open>\<open>ROOT_MIDI_VALUES\<close> at the fifteen roots of type \<open>KeyRoot\<close> (the table's further keys
  'D#', 'G#' and 'A#' are no \<open>KeyRoot\<close>).\<close>

fun ROOT_MIDI_VALUES :: "KeyRoot \<Rightarrow> int" where
  "ROOT_MIDI_VALUES Key_C = 0"
| "ROOT_MIDI_VALUES Key_Cs = 1"
| "ROOT_MIDI_VALUES Key_Db = 1"
| "ROOT_MIDI_VALUES Key_D = 2"
| "ROOT_MIDI_VALUES Key_Eb = 3"
| "ROOT_MIDI_VALUES Key_E = 4"
| "ROOT_MIDI_VALUES Key_F = 5"
| "ROOT_MIDI_VALUES Key_Fs = 6"
| "ROOT_MIDI_VALUES Key_Gb = 6"
| "ROOT_MIDI_VALUES Key_G = 7"
| "ROOT_MIDI_VALUES Key_Ab = 8"
| "ROOT_MIDI_VALUES Key_A = 9"
| "ROOT_MIDI_VALUES Key_Bb = 10"
| "ROOT_MIDI_VALUES Key_B = 11"
| "ROOT_MIDI_VALUES Key_Cb = 11"

definition MAJOR_INTERVALS :: "int list" where
  "MAJOR_INTERVALS = [0, 2, 4, 5, 7, 9, 11]"

definition MINOR_INTERVALS :: "int list" where
  "MINOR_INTERVALS = [0, 2, 3, 5, 7, 8, 10]"

definition getScalePitchClasses :: "KeyRoot \<Rightarrow> KeyType \<Rightarrow> int list" where
  "getScalePitchClasses kroot type =
     (let rootMidi = ROOT_MIDI_VALUES kroot;
          intervals = (if type = major then MAJOR_INTERVALS else MINOR_INTERVALS)
      in map (\<lambda>interval. js_rem (rootMidi + interval) 12) intervals)"

definition shouldUseFlats :: "KeyRoot \<Rightarrow> KeyType \<Rightarrow> bool" where
  "shouldUseFlats kroot type =
     (if kroot \<in> set [Key_F, Key_Bb, Key_Eb, Key_Ab, Key_Db, Key_Gb, Key_Cb] then True
      else if type = minor \<and> kroot \<in> set [Key_D, Key_G, Key_C, Key_F, Key_Bb, Key_Eb] then True
      else False)"

definition NOTE_NAMES_SHARP :: "string list" where
  "NOTE_NAMES_SHARP =
     [''C'', ''C#'', ''D'', ''D#'', ''E'', ''F'', ''F#'', ''G'', ''G#'', ''A'', ''A#'', ''B'']"

definition NOTE_NAMES_FLAT :: "string list" where
  "NOTE_NAMES_FLAT =
     [''C'', ''Db'', ''D'', ''Eb'', ''E'', ''F'', ''Gb'', ''G'', ''Ab'', ''A'', ''Bb'', ''B'']"

section \<open>The note speller\<close>

text \<open>\<open>rawName\<close> is \<open>undefined\<close> when the pitch class is no index of the table (a negative
  pitch), and \<open>rawName.includes\<close> then throws.\<close>

definition midiToNote :: "int \<Rightarrow> KeyRoot \<Rightarrow> KeyType \<Rightarrow> error + Note" where
  "midiToNote m kroot type =
     (let octave = m div 12 - 1;
          pitchClass = js_rem m 12;
          useFlats = shouldUseFlats kroot type
      in case js_index (if useFlats then NOTE_NAMES_FLAT else NOTE_NAMES_SHARP) pitchClass of
           None \<Rightarrow> Inl TypeError
         | Some rawName \<Rightarrow>
             (let (name, accidental) =
                    (if CHR ''#'' \<in> set rawName then (take 1 rawName, Some Sharp)
                     else if CHR ''b'' \<in> set rawName \<and> length rawName > 1
                       then (take 1 rawName, Some Flat)
                     else (rawName, None));
                  diatonicPitchClasses = getScalePitchClasses kroot type;
                  isDiatonic = (pitchClass \<in> set diatonicPitchClasses);
                  accidental = (if \<not> isDiatonic \<and> accidental = None then Some Natural
                                else accidental)
              in Inr \<lparr>midi = m, name = name, octave = octave, accidental = accidental,
                       duration = None\<rparr>))"

text \<open>Spelling every pitch of a chord, left to right; the first exception ends it.\<close>

fun map_midiToNote :: "int list \<Rightarrow> KeyRoot \<Rightarrow> KeyType \<Rightarrow> error + Note list" where
  "map_midiToNote [] kroot type = Inr []"
| "map_midiToNote (m # ms) kroot type =
     (case midiToNote m kroot type of
        Inl e \<Rightarrow> Inl e
      | Inr n \<Rightarrow> (case map_midiToNote ms kroot type of
                    Inl e \<Rightarrow> Inl e
                  | Inr ns \<Rightarrow> Inr (n # ns)))"

section \<open>Validity and the random valid pitch\<close>

definition isValidNote :: "GameSettings \<Rightarrow> int \<Rightarrow> bool" where
  "isValidNote settings m =
     (if \<not> useAccidentals settings
      then js_rem m 12 \<in> set (getScalePitchClasses (keyRoot settings) (keyType settings))
      else True)"

text \<open>The \<open>while (attempts < 100)\<close> loop of \<open>getValidRandomMidi\<close>: the pitch it returns, or
  \<open>None\<close> when it falls through, and the number of draws made.\<close>

function random_attempts ::
  "(int \<Rightarrow> bool) \<Rightarrow> rng \<Rightarrow> int \<Rightarrow> int \<Rightarrow> nat \<Rightarrow> nat \<Rightarrow> int option \<times> nat" where
  "random_attempts valid rs mn mx attempts pos =
     (if attempts < 100 then
        (let m = getRandomInt (rs pos) mn mx in
         if valid m then (Some m, pos + 1)
         else random_attempts valid rs mn mx (attempts + 1) (pos + 1))
      else (None, pos))"
  by pat_completeness auto
termination
  by (relation "measure (\<lambda>(valid, rs, mn, mx, attempts, pos). 100 - attempts)") auto

text \<open>The fallback \<open>for (let i = min; i <= max; i++)\<close>.\<close>

function linear_scan :: "(int \<Rightarrow> bool) \<Rightarrow> int \<Rightarrow> int \<Rightarrow> int option" where
  "linear_scan valid i mx =
     (if i \<le> mx then (if valid i then Some i else linear_scan valid (i + 1) mx) else None)"
  by pat_completeness auto
termination
  by (relation "measure (\<lambda>(valid, i, mx). nat (mx + 1 - i))") auto

definition getValidRandomMidi ::
  "(int \<Rightarrow> bool) \<Rightarrow> rng \<Rightarrow> int \<Rightarrow> int \<Rightarrow> nat \<Rightarrow> int \<times> nat" where
  "getValidRandomMidi valid rs mn mx pos =
     (case random_attempts valid rs mn mx 0 pos of
        (Some m, pos') \<Rightarrow> (m, pos')
      | (None, pos') \<Rightarrow>
          (case linear_scan valid mn mx of
             Some i \<Rightarrow> (i, pos')
           | None \<Rightarrow> (mn, pos')))"

section \<open>Exercise generation\<close>

text \<open>Single-note mode: the loop \<open>for (let i = 0; i < itemCount; i++)\<close> with \<open>itemCount = 6\<close>.\<close>

function single_loop ::
  "GameSettings \<Rightarrow> rng \<Rightarrow> (nat \<Rightarrow> string) \<Rightarrow> int \<Rightarrow> int \<Rightarrow> int \<Rightarrow> ExerciseItem list \<Rightarrow> nat
     \<Rightarrow> error + ExerciseItem list" where
  "single_loop settings rs ids mn mx i items pos =
     (if i < 6 then
        (case getValidRandomMidi (isValidNote settings) rs mn mx pos of
           (m, pos') \<Rightarrow>
             (case midiToNote m (keyRoot settings) (keyType settings) of
                Inl e \<Rightarrow> Inl e
              | Inr note \<Rightarrow>
                  single_loop settings rs ids mn mx (i + 1)
                    (items @ [\<lparr>item_id = ids (length items), item_notes = [note],
                               status = pending, userInput = None, isBeamGroup = None,
                               beamGroupIndex = None\<rparr>]) pos'))
      else Inr items)"
  by pat_completeness auto
termination
  by (relation "measure (\<lambda>(settings, rs, ids, mn, mx, i, items, pos). nat (6 - i))") auto

text \<open>Chord mode, strict branch after the third: the fifth and the seventh are pushed when
  their pitch class is diatonic.\<close>

definition diatonic_upper :: "int list \<Rightarrow> int \<Rightarrow> bool \<Rightarrow> int list \<Rightarrow> int list" where
  "diatonic_upper diatonicPitchClasses croot isSeventh chordMidis =
     (let chordMidis =
            (if js_rem (croot + 7) 12 \<in> set diatonicPitchClasses then chordMidis @ [croot + 7]
             else if js_rem (croot + 6) 12 \<in> set diatonicPitchClasses then chordMidis @ [croot + 6]
             else chordMidis)
      in if isSeventh then
           (if js_rem (croot + 11) 12 \<in> set diatonicPitchClasses then chordMidis @ [croot + 11]
            else if js_rem (croot + 10) 12 \<in> set diatonicPitchClasses then chordMidis @ [croot + 10]
            else if js_rem (croot + 9) 12 \<in> set diatonicPitchClasses then chordMidis @ [croot + 9]
            else chordMidis)
         else chordMidis)"

text \<open>The strict branch: \<open>None\<close> is the first \<open>i--; continue\<close> (no diatonic third).\<close>

definition diatonic_chord :: "int list \<Rightarrow> int \<Rightarrow> bool \<Rightarrow> int list option" where
  "diatonic_chord diatonicPitchClasses croot isSeventh =
     (let chordMidis = [croot]
      in if js_rem (croot + 3) 12 \<in> set diatonicPitchClasses
           then Some (diatonic_upper diatonicPitchClasses croot isSeventh (chordMidis @ [croot + 3]))
         else if js_rem (croot + 4) 12 \<in> set diatonicPitchClasses
           then Some (diatonic_upper diatonicPitchClasses croot isSeventh (chordMidis @ [croot + 4]))
         else None)"

text \<open>The chromatic branch draws the third and, for a seventh chord, the seventh.\<close>

definition chromatic_chord :: "rng \<Rightarrow> int \<Rightarrow> bool \<Rightarrow> nat \<Rightarrow> int list \<times> nat" where
  "chromatic_chord rs croot isSeventh pos =
     (let third = (if rs pos > 1 / 2 then 4 else 3);
          pos = pos + 1;
          chordMidis = [croot] @ [croot + third] @ [croot + 7]
      in if isSeventh
           then (chordMidis @ [croot + 10 + (if rs pos > 1 / 2 then 1 else 0)], pos + 1)
         else (chordMidis, pos))"

text \<open>One pass through the body of the chord loop, up to the spelling of the notes: the
  pitches of the chord, or \<open>None\<close> when the pass ends in one of the two \<open>i--; continue\<close>, and
  the number of draws made.\<close>

definition chord_attempt ::
  "GameSettings \<Rightarrow> rng \<Rightarrow> int \<Rightarrow> int \<Rightarrow> nat \<Rightarrow> int list option \<times> nat" where
  "chord_attempt settings rs mn mx pos =
     (let diatonicPitchClasses = getScalePitchClasses (keyRoot settings) (keyType settings);
          safeMax = mx - 11
      in case getValidRandomMidi (isValidNote settings) rs mn safeMax pos of
           (croot, pos) \<Rightarrow>
             (let isSeventh = (rs pos > round_double (7 / 10));
                  pos = pos + 1
              in if \<not> useAccidentals settings then
                   (case diatonic_chord diatonicPitchClasses croot isSeventh of
                      None \<Rightarrow> (None, pos)
                    | Some chordMidis \<Rightarrow>
                        if \<exists>m \<in> set chordMidis. \<not> isValidNote settings m then (None, pos)
                        else (Some chordMidis, pos))
                 else
                   (case chromatic_chord rs croot isSeventh pos of
                      (chordMidis, pos) \<Rightarrow> (Some chordMidis, pos))))"

text \<open>The chord loop. A discarded pass leaves \<open>i\<close> as it was (\<open>i--\<close>, then the loop's \<open>i++\<close>),
  so the loop has no bound of its own: \<open>fuel\<close> is the number of passes through the body that
  are allowed, and \<open>None\<close> says that they did not suffice.\<close>

fun chords_loop ::
  "nat \<Rightarrow> GameSettings \<Rightarrow> rng \<Rightarrow> (nat \<Rightarrow> string) \<Rightarrow> int \<Rightarrow> int \<Rightarrow> int \<Rightarrow> ExerciseItem list \<Rightarrow> nat
     \<Rightarrow> (error + ExerciseItem list) option" where
  "chords_loop 0 settings rs ids mn mx i items pos =
     (if i < 6 then None else Some (Inr items))"
| "chords_loop (Suc fuel) settings rs ids mn mx i items pos =
     (if i < 6 then
        (case chord_attempt settings rs mn mx pos of
           (None, pos') \<Rightarrow> chords_loop fuel settings rs ids mn mx (i - 1 + 1) items pos'
         | (Some chordMidis, pos') \<Rightarrow>
             (case map_midiToNote chordMidis (keyRoot settings) (keyType settings) of
                Inl e \<Rightarrow> Some (Inl e)
              | Inr finalNotes \<Rightarrow>
                  chords_loop fuel settings rs ids mn mx (i + 1)
                    (items @ [\<lparr>item_id = ids (length items), item_notes = finalNotes,
                               status = pending, userInput = None, isBeamGroup = None,
                               beamGroupIndex = None\<rparr>]) pos'))
      else Some (Inr items))"

text \<open>Beam mode: the inner loop \<open>for (let n = 0; n < groupSize; n++)\<close>.\<close>

function beam_group_loop ::
  "GameSettings \<Rightarrow> rng \<Rightarrow> (nat \<Rightarrow> string) \<Rightarrow> int \<Rightarrow> int \<Rightarrow> int \<Rightarrow> int \<Rightarrow> int
     \<Rightarrow> ExerciseItem list \<Rightarrow> nat \<Rightarrow> error + ExerciseItem list \<times> nat" where
  "beam_group_loop settings rs ids mn mx currentBeamIndex groupSize n items pos =
     (if n < groupSize then
        (case getValidRandomMidi (isValidNote settings) rs mn mx pos of
           (m, pos') \<Rightarrow>
             (case midiToNote m (keyRoot settings) (keyType settings) of
                Inl e \<Rightarrow> Inl e
              | Inr note \<Rightarrow>
                  beam_group_loop settings rs ids mn mx currentBeamIndex groupSize (n + 1)
                    (items @ [\<lparr>item_id = ids (length items),
                               item_notes = [note\<lparr>duration := Some Dur_16\<rparr>],
                               status = pending, userInput = None, isBeamGroup = Some True,
                               beamGroupIndex = Some currentBeamIndex\<rparr>]) pos'))
      else Inr (items, pos))"
  by pat_completeness auto
termination
  by (relation "measure (\<lambda>(settings, rs, ids, mn, mx, currentBeamIndex, groupSize, n, items, pos).
        nat (groupSize - n))") auto

text \<open>Beam mode: the outer loop \<open>for (let g = 0; g < numGroups; g++)\<close>.\<close>

function beams_loop ::
  "GameSettings \<Rightarrow> rng \<Rightarrow> (nat \<Rightarrow> string) \<Rightarrow> int \<Rightarrow> int \<Rightarrow> int \<Rightarrow> int \<Rightarrow> int
     \<Rightarrow> ExerciseItem list \<Rightarrow> nat \<Rightarrow> error + ExerciseItem list" where
  "beams_loop settings rs ids mn mx numGroups g currentBeamIndex items pos =
     (if g < numGroups then
        (let groupSize = getRandomInt (rs pos) 4 6
         in case beam_group_loop settings rs ids mn mx currentBeamIndex groupSize 0 items (pos + 1) of
              Inl e \<Rightarrow> Inl e
            | Inr (items', pos') \<Rightarrow>
                beams_loop settings rs ids mn mx numGroups (g + 1) (currentBeamIndex + 1) items' pos')
      else Inr items)"
  by pat_completeness auto
termination
  by (relation "measure (\<lambda>(settings, rs, ids, mn, mx, numGroups, g, currentBeamIndex, items, pos).
        nat (numGroups - g))") auto

text \<open>\<open>generateExercise\<close>: \<open>Some (Inr items)\<close> when it returns \<open>items\<close>, \<open>Some (Inl e)\<close> when it
  throws, \<open>None\<close> when the chord loop needs more than \<open>fuel\<close> passes.\<close>

definition generateExercise ::
  "nat \<Rightarrow> rng \<Rightarrow> (nat \<Rightarrow> string) \<Rightarrow> GameSettings \<Rightarrow> (error + ExerciseItem list) option" where
  "generateExercise fuel rs ids settings =
     (let items = [];
          mn = (if clef settings = treble then TREBLE_MIN else BASS_MIN);
          mx = (if clef settings = treble then TREBLE_MAX else BASS_MAX)
      in if mode settings = single then Some (single_loop settings rs ids mn mx 0 items 0)
         else if mode settings = chords then chords_loop fuel settings rs ids mn mx 0 items 0
         else if mode settings = beams then
           (let numGroups = getRandomInt (rs 0) 3 4
            in Some (beams_loop settings rs ids mn mx numGroups 0 0 items 1))
         else Some (Inr items))"

section \<open>The judge's order (App.tsx, submitChord)\<close>

text \<open>\<open>Array.prototype.sort\<close> without a comparator orders the elements by their strings
  (\<open>ToString\<close>), compared code unit by code unit, and is stable.\<close>

definition DIGITS :: string where
  "DIGITS = ''0123456789''"

function nat_digits :: "nat \<Rightarrow> string" where
  "nat_digits n = (if n < 10 then [DIGITS ! n] else nat_digits (n div 10) @ [DIGITS ! (n mod 10)])"
  by pat_completeness auto
termination
  by (relation "measure (\<lambda>n. n)") auto

definition js_toString :: "int \<Rightarrow> string" where
  "js_toString i = (if i < 0 then CHR ''-'' # nat_digits (nat (- i)) else nat_digits (nat i))"

definition js_default_sort :: "int list \<Rightarrow> int list" where
  "js_default_sort xs = sort_key js_toString xs"

definition targetMidis :: "ExerciseItem \<Rightarrow> int list" where
  "targetMidis currentItem = js_default_sort (map midi (item_notes currentItem))"

section \<open>Decoding a spelled note\<close>

text \<open>The decoding that the round-trip property of the specification speaks of (it is no
  function of the source): the letter's pitch class, plus one for a sharp, minus one for a
  flat, nothing for a natural or no accidental, plus twelve times the octave plus one.\<close>

definition letter_pitch_class :: "string \<Rightarrow> int option" where
  "letter_pitch_class l =
     map_of [(''C'', 0), (''D'', 2), (''E'', 4), (''F'', 5), (''G'', 7), (''A'', 9), (''B'', 11)] l"

definition accidental_offset :: "Accidental option \<Rightarrow> int" where
  "accidental_offset a =
     (case a of Some Sharp \<Rightarrow> 1 | Some Flat \<Rightarrow> - 1 | Some Natural \<Rightarrow> 0 | None \<Rightarrow> 0)"

definition spec_decode :: "Note \<Rightarrow> int option" where
  "spec_decode n =
     (case letter_pitch_class (name n) of
        None \<Rightarrow> None
      | Some base \<Rightarrow> Some (base + accidental_offset (accidental n) + 12 * (octave n + 1)))"

section \<open>Auxiliary definitions for the statements\<close>

text \<open>What the speller returns for a pitch of class c.\<close>

definition spelled :: "bool \<Rightarrow> bool \<Rightarrow> int \<Rightarrow> string \<times> Accidental option" where
  "spelled useFlats isDiatonic c =
     (let nat_acc = (if isDiatonic then None else Some Natural) in
      if c = 0 then (''C'', nat_acc)
      else if c = 1 then (if useFlats then (''D'', Some Flat) else (''C'', Some Sharp))
      else if c = 2 then (''D'', nat_acc)
      else if c = 3 then (if useFlats then (''E'', Some Flat) else (''D'', Some Sharp))
      else if c = 4 then (''E'', nat_acc)
      else if c = 5 then (''F'', nat_acc)
      else if c = 6 then (if useFlats then (''G'', Some Flat) else (''F'', Some Sharp))
      else if c = 7 then (''G'', nat_acc)
      else if c = 8 then (if useFlats then (''A'', Some Flat) else (''G'', Some Sharp))
      else if c = 9 then (''A'', nat_acc)
      else if c = 10 then (if useFlats then (''B'', Some Flat) else (''A'', Some Sharp))
      else (''B'', nat_acc))"

text \<open>The name that \<open>midiToNote\<close> reads from its table (its \<open>rawName\<close>), and the suffix that an
  accidental adds to a letter in the tables.\<close>

definition looked_up_name :: "int \<Rightarrow> KeyRoot \<Rightarrow> KeyType \<Rightarrow> string option" where
  "looked_up_name m kroot type =
     js_index (if shouldUseFlats kroot type then NOTE_NAMES_FLAT else NOTE_NAMES_SHARP) (js_rem m 12)"

definition accidental_suffix :: "Accidental option \<Rightarrow> string" where
  "accidental_suffix a = (case a of Some Sharp \<Rightarrow> ''#'' | Some Flat \<Rightarrow> ''b'' | Some Natural \<Rightarrow> [] | None \<Rightarrow> [])"

text \<open>The interval table that \<open>getScalePitchClasses\<close> selects.\<close>

definition intervals_of :: "KeyType \<Rightarrow> int list" where
  "intervals_of t = (if t = major then MAJOR_INTERVALS else MINOR_INTERVALS)"

text \<open>The chord construction in the words of the specification, over pitch classes \<open>p mod 12\<close>:
  the third is +3 when that class is diatonic, else +4 when diatonic, else there is no chord; the
  fifth is +7, else +6, else omitted; with the seventh flag, +11, else +10, else +9, else omitted.
  In chromatic mode the chord is the root, a third chosen by a coin, +7, and with the seventh flag
  a seventh chosen by a coin.\<close>

definition spec_third :: "int list \<Rightarrow> int \<Rightarrow> int option" where
  "spec_third dia croot =
     (if (croot + 3) mod 12 \<in> set dia then Some (croot + 3)
      else if (croot + 4) mod 12 \<in> set dia then Some (croot + 4)
      else None)"

definition spec_fifth :: "int list \<Rightarrow> int \<Rightarrow> int list" where
  "spec_fifth dia croot =
     (if (croot + 7) mod 12 \<in> set dia then [croot + 7]
      else if (croot + 6) mod 12 \<in> set dia then [croot + 6]
      else [])"

definition spec_seventh :: "int list \<Rightarrow> int \<Rightarrow> bool \<Rightarrow> int list" where
  "spec_seventh dia croot isSeventh =
     (if \<not> isSeventh then []
      else if (croot + 11) mod 12 \<in> set dia then [croot + 11]
      else if (croot + 10) mod 12 \<in> set dia then [croot + 10]
      else if (croot + 9) mod 12 \<in> set dia then [croot + 9]
      else [])"

definition spec_strict_chord :: "int list \<Rightarrow> int \<Rightarrow> bool \<Rightarrow> int list option" where
  "spec_strict_chord dia croot isSeventh =
     (case spec_third dia croot of
        None \<Rightarrow> None
      | Some third \<Rightarrow> Some ([croot, third] @ spec_fifth dia croot @ spec_seventh dia croot isSeventh))"

definition spec_chromatic_chord :: "int \<Rightarrow> bool \<Rightarrow> bool \<Rightarrow> bool \<Rightarrow> int list" where
  "spec_chromatic_chord croot majorThird isSeventh majorSeventh =
     [croot, croot + (if majorThird then 4 else 3), croot + 7]
       @ (if isSeventh then [croot + (if majorSeventh then 11 else 10)] else [])"

text \<open>The pitches of a chord as the specification describes them, for some valid root between
  \<open>min\<close> and \<open>max - 11\<close>, some seventh flag and, in chromatic mode, some coins.\<close>

definition described_chord :: "GameSettings \<Rightarrow> int \<Rightarrow> int \<Rightarrow> int list \<Rightarrow> bool" where
  "described_chord s mn mx ms =
     (\<exists>croot isSeventh. mn \<le> croot \<and> croot \<le> mx - 11 \<and> isValidNote s croot
        \<and> (if useAccidentals s
            then \<exists>majorThird majorSeventh.
                   ms = spec_chromatic_chord croot majorThird isSeventh majorSeventh
            else spec_strict_chord (getScalePitchClasses (keyRoot s) (keyType s)) croot isSeventh
                   = Some ms))"

text \<open>A chord item as the chord loop pushes it: its pitches are a described chord, and each note
  is the spelling of its pitch.\<close>

definition chord_item :: "GameSettings \<Rightarrow> int \<Rightarrow> int \<Rightarrow> ExerciseItem \<Rightarrow> bool" where
  "chord_item s mn mx it =
     (described_chord s mn mx (map midi (item_notes it))
      \<and> list_all (\<lambda>n. midiToNote (midi n) (keyRoot s) (keyType s) = Inr n) (item_notes it)
      \<and> status it = pending \<and> userInput it = None \<and> isBeamGroup it = None
      \<and> beamGroupIndex it = None)"

text \<open>A single-note item as the single-note loop pushes it, and an item of beam group \<open>g\<close> as
  the beam loop pushes it: one note, the spelling of a valid pitch of the range.\<close>

definition single_item :: "GameSettings \<Rightarrow> int \<Rightarrow> int \<Rightarrow> ExerciseItem \<Rightarrow> bool" where
  "single_item s mn mx it =
     (\<exists>n. item_notes it = [n] \<and> mn \<le> midi n \<and> midi n \<le> mx \<and> isValidNote s (midi n)
        \<and> midiToNote (midi n) (keyRoot s) (keyType s) = Inr n
        \<and> status it = pending \<and> userInput it = None \<and> isBeamGroup it = None
        \<and> beamGroupIndex it = None)"

definition beam_item :: "GameSettings \<Rightarrow> int \<Rightarrow> int \<Rightarrow> int \<Rightarrow> ExerciseItem \<Rightarrow> bool" where
  "beam_item s mn mx g it =
     (\<exists>n. item_notes it = [n\<lparr>duration := Some Dur_16\<rparr>] \<and> mn \<le> midi n \<and> midi n \<le> mx
        \<and> isValidNote s (midi n)
        \<and> midiToNote (midi n) (keyRoot s) (keyType s) = Inr n
        \<and> status it = pending \<and> userInput it = None \<and> isBeamGroup it = Some True
        \<and> beamGroupIndex it = Some g)"

text \<open>Items that fall into consecutive beam groups of the given sizes, indexed from \<open>g\<close> on.\<close>

fun beam_groups ::
  "GameSettings \<Rightarrow> int \<Rightarrow> int \<Rightarrow> int \<Rightarrow> int list \<Rightarrow> ExerciseItem list \<Rightarrow> bool" where
  "beam_groups s mn mx g [] its = (its = [])"
| "beam_groups s mn mx g (z # zs) its =
     (nat z \<le> length its \<and> list_all (beam_item s mn mx g) (take (nat z) its)
      \<and> beam_groups s mn mx (g + 1) zs (drop (nat z) its))"

text \<open>The chords of \<open>k\<close> consecutive passes through the body of the chord loop, from the
  draw position \<open>pos\<close> on (\<open>None\<close> for a discarded pass).\<close>

fun chord_passes ::
  "nat \<Rightarrow> GameSettings \<Rightarrow> rng \<Rightarrow> int \<Rightarrow> int \<Rightarrow> nat \<Rightarrow> int list option list" where
  "chord_passes 0 s rs mn mx pos = []"
| "chord_passes (Suc k) s rs mn mx pos =
     (case chord_attempt s rs mn mx pos of
        (c, pos') \<Rightarrow> c # chord_passes k s rs mn mx pos')"

text \<open>The pitch range of the clef, as \<open>generateExercise\<close> computes \<open>min\<close> and \<open>max\<close>.\<close>

definition clef_min :: "GameSettings \<Rightarrow> int" where
  "clef_min s = (if clef s = treble then TREBLE_MIN else BASS_MIN)"

definition clef_max :: "GameSettings \<Rightarrow> int" where
  "clef_max s = (if clef s = treble then TREBLE_MAX else BASS_MAX)"

text \<open>The beam-group indices of consecutive groups of the given sizes, numbered from \<open>g\<close> on.\<close>

fun group_indices :: "int \<Rightarrow> int list \<Rightarrow> int option list" where
  "group_indices g [] = []"
| "group_indices g (z # zs) = replicate (nat z) (Some g) @ group_indices (g + 1) zs"

section \<open>The note speller: properties\<close>

lemma js_rem_nonneg: "0 \<le> m \<Longrightarrow> js_rem m 12 = m mod 12"
  by (simp add: js_rem_def sgn_if)

lemma below12_disj:
  "(0::int) \<le> c \<Longrightarrow> c < 12 \<Longrightarrow>
     c = 0 \<or> c = 1 \<or> c = 2 \<or> c = 3 \<or> c = 4 \<or> c = 5 \<or> c = 6 \<or> c = 7 \<or> c = 8 \<or> c = 9 \<or> c = 10 \<or> c = 11"
  by arith

lemma mod12_disj:
  fixes m :: int
  shows "m mod 12 = 0 \<or> m mod 12 = 1 \<or> m mod 12 = 2 \<or> m mod 12 = 3 \<or> m mod 12 = 4
    \<or> m mod 12 = 5 \<or> m mod 12 = 6 \<or> m mod 12 = 7 \<or> m mod 12 = 8 \<or> m mod 12 = 9
    \<or> m mod 12 = 10 \<or> m mod 12 = 11"
proof -
  have "0 \<le> m mod 12" "m mod 12 < 12" by simp_all
  from below12_disj[OF this] show ?thesis .
qed

lemma midiToNote_spelled:
  assumes "0 \<le> m"
  shows "midiToNote m r t =
    Inr \<lparr>midi = m,
         name = fst (spelled (shouldUseFlats r t) (m mod 12 \<in> set (getScalePitchClasses r t)) (m mod 12)),
         octave = m div 12 - 1,
         accidental = snd (spelled (shouldUseFlats r t) (m mod 12 \<in> set (getScalePitchClasses r t)) (m mod 12)),
         duration = None\<rparr>"
  using mod12_disj[of m]
  by (elim disjE)
     (simp_all add: midiToNote_def js_rem_nonneg[OF assms] js_index_def spelled_def
        NOTE_NAMES_SHARP_def NOTE_NAMES_FLAT_def Let_def)

lemma spelled_decode:
  assumes "0 \<le> c" "c < 12"
  shows "letter_pitch_class (fst (spelled f d c)) =
           Some (c - accidental_offset (snd (spelled f d c)))"
  using below12_disj[OF assms]
  by (elim disjE) (simp_all add: spelled_def letter_pitch_class_def accidental_offset_def)

text \<open>The octave is \<open>Math.floor(midi / 12) - 1\<close>: for the pitches 0 to 127 the floor of the
  double quotient is the integer quotient \<open>midi div 12\<close> of the model.\<close>

lemma floor_double_quotient:
  "list_all (\<lambda>m. \<lfloor>round_double (of_int m / 12)\<rfloor> = m div 12) [0..127]"
  by code_simp

lemma floor_twelfth: "\<lfloor>of_int p / (12::rat)\<rfloor> = p div 12"
  using floor_divide_of_int_eq[of p 12, where ?'a = rat] by simp

text \<open>Claim C1. For every pitch from 0 to 127 and each of the 15 roots and 2 key types,
  \<open>midiToNote\<close> returns a spelled note (it does not throw): its octave is
  \<open>floor(pitch / 12) - 1\<close>, its name is one of the letters A to G, and decoding letter, accidental
  and octave gives the pitch back.\<close>

theorem midiToNote_round_trip:
  assumes "0 \<le> p" and "p \<le> 127"
  shows "\<exists>n. midiToNote p r t = Inr n \<and> midi n = p \<and> octave n = \<lfloor>of_int p / (12::rat)\<rfloor> - 1
           \<and> name n \<in> set [''A'', ''B'', ''C'', ''D'', ''E'', ''F'', ''G'']
           \<and> spec_decode n = Some p"
proof -
  let ?c = "p mod 12"
  let ?sp = "spelled (shouldUseFlats r t) (?c \<in> set (getScalePitchClasses r t)) ?c"
  let ?n = "\<lparr>midi = p, name = fst ?sp, octave = p div 12 - 1, accidental = snd ?sp,
             duration = None\<rparr>"
  have n: "midiToNote p r t = Inr ?n"
    by (rule midiToNote_spelled[OF assms(1)])
  have c: "0 \<le> ?c" "?c < 12" by simp_all
  have letter: "letter_pitch_class (fst ?sp) = Some (?c - accidental_offset (snd ?sp))"
    by (rule spelled_decode[OF c])
  have "12 * (p div 12) + ?c = p" by simp
  then have dec: "spec_decode ?n = Some p"
    by (simp add: spec_decode_def letter)
  have nm: "fst ?sp \<in> set [''A'', ''B'', ''C'', ''D'', ''E'', ''F'', ''G'']"
    using below12_disj[OF c] by (elim disjE) (simp_all add: spelled_def)
  show ?thesis
    using n dec nm by (simp add: floor_twelfth)
qed

theorem midiToNote_round_trip_witness:
  "(0::int) \<le> 61 \<and> (61::int) \<le> 127
   \<and> (\<exists>n. midiToNote 61 Key_Eb minor = Inr n \<and> midi n = 61 \<and> octave n = \<lfloor>of_int 61 / (12::rat)\<rfloor> - 1
           \<and> name n \<in> set [''A'', ''B'', ''C'', ''D'', ''E'', ''F'', ''G'']
           \<and> spec_decode n = Some 61)"
  using midiToNote_round_trip[of 61 Key_Eb minor] by simp

lemma scale_D_major: "getScalePitchClasses Key_D major = [2, 4, 6, 7, 9, 11, 1]"
  by (simp add: getScalePitchClasses_def MAJOR_INTERVALS_def js_rem_def)

lemma looked_up_name_marking:
  assumes "0 \<le> p"
  shows "\<exists>raw. looked_up_name p r t = Some raw
    \<and> (snd (spelled (shouldUseFlats r t) d (p mod 12)) = Some Natural
          \<longleftrightarrow> \<not> d \<and> CHR ''#'' \<notin> set raw \<and> CHR ''b'' \<notin> set raw)
    \<and> (CHR ''#'' \<in> set raw \<longrightarrow> snd (spelled (shouldUseFlats r t) d (p mod 12)) = Some Sharp)
    \<and> (CHR ''b'' \<in> set raw \<longrightarrow> snd (spelled (shouldUseFlats r t) d (p mod 12)) = Some Flat)"
  using mod12_disj[of p]
  by (elim disjE)
     (simp_all add: looked_up_name_def js_rem_nonneg[OF assms] js_index_def spelled_def
        NOTE_NAMES_SHARP_def NOTE_NAMES_FLAT_def)

text \<open>Claim C5. The spelled note carries the natural sign exactly when the pitch class is not
  diatonic in the key and the name read from the table has neither sharp nor flat; a sharp or a
  flat of the table name is kept as it is. In D major the class of F natural (5) is spelled F
  with a natural, and the class of F sharp (6) is spelled F with a sharp.\<close>

theorem natural_marking:
  assumes "0 \<le> p"
  shows "\<exists>n raw. midiToNote p r t = Inr n \<and> looked_up_name p r t = Some raw
    \<and> (accidental n = Some Natural
          \<longleftrightarrow> js_rem p 12 \<notin> set (getScalePitchClasses r t)
              \<and> CHR ''#'' \<notin> set raw \<and> CHR ''b'' \<notin> set raw)
    \<and> (CHR ''#'' \<in> set raw \<longrightarrow> accidental n = Some Sharp)
    \<and> (CHR ''b'' \<in> set raw \<longrightarrow> accidental n = Some Flat)
    \<and> (r = Key_D \<and> t = major \<and> js_rem p 12 = 5 \<longrightarrow> name n = ''F'' \<and> accidental n = Some Natural)
    \<and> (r = Key_D \<and> t = major \<and> js_rem p 12 = 6 \<longrightarrow> name n = ''F'' \<and> accidental n = Some Sharp)"
proof -
  let ?d = "p mod 12 \<in> set (getScalePitchClasses r t)"
  let ?sp = "spelled (shouldUseFlats r t) ?d (p mod 12)"
  let ?n = "\<lparr>midi = p, name = fst ?sp, octave = p div 12 - 1, accidental = snd ?sp,
             duration = None\<rparr>"
  have n: "midiToNote p r t = Inr ?n"
    by (rule midiToNote_spelled[OF assms])
  from looked_up_name_marking[OF assms, of r t ?d] obtain raw where
    raw: "looked_up_name p r t = Some raw"
    and nat: "snd ?sp = Some Natural \<longleftrightarrow> \<not> ?d \<and> CHR ''#'' \<notin> set raw \<and> CHR ''b'' \<notin> set raw"
    and sharp: "CHR ''#'' \<in> set raw \<longrightarrow> snd ?sp = Some Sharp"
    and flat: "CHR ''b'' \<in> set raw \<longrightarrow> snd ?sp = Some Flat"
    by blast
  have d5: "r = Key_D \<and> t = major \<and> p mod 12 = 5 \<longrightarrow> fst ?sp = ''F'' \<and> snd ?sp = Some Natural"
    by (simp add: scale_D_major spelled_def)
  have d6: "r = Key_D \<and> t = major \<and> p mod 12 = 6 \<longrightarrow> fst ?sp = ''F'' \<and> snd ?sp = Some Sharp"
    by (simp add: scale_D_major spelled_def shouldUseFlats_def)
  show ?thesis
    using n raw nat sharp flat d5 d6 by (simp add: js_rem_nonneg[OF assms])
qed

theorem natural_marking_witness:
  "(0::int) \<le> 65 \<and> (\<exists>n. midiToNote 65 Key_D major = Inr n \<and> looked_up_name 65 Key_D major = Some ''F''
     \<and> js_rem 65 12 = 5 \<and> name n = ''F'' \<and> accidental n = Some Natural)"
  using natural_marking[of 65 Key_D major]
  by (auto simp add: looked_up_name_def js_rem_def js_index_def shouldUseFlats_def NOTE_NAMES_SHARP_def)

lemma spelled_table:
  assumes "0 \<le> c" "c < 12"
  shows "fst (spelled f d c) \<in> set [''A'', ''B'', ''C'', ''D'', ''E'', ''F'', ''G'']
    \<and> fst (spelled f d c) @ accidental_suffix (snd (spelled f d c))
         \<in> set NOTE_NAMES_SHARP \<union> set NOTE_NAMES_FLAT
    \<and> (fst (spelled f d c), snd (spelled f d c))
         \<notin> {(''C'', Some Flat), (''F'', Some Flat), (''E'', Some Sharp), (''B'', Some Sharp)}"
  using below12_disj[OF assms]
  by (elim disjE)
     (simp_all add: spelled_def accidental_suffix_def NOTE_NAMES_SHARP_def NOTE_NAMES_FLAT_def)

lemma scale_Gb_has_11: "11 \<in> set (getScalePitchClasses Key_Gb t)"
  by (cases t) (simp_all add: getScalePitchClasses_def MAJOR_INTERVALS_def MINOR_INTERVALS_def js_rem_def)

lemma scale_Cb_has_4_11: "4 \<in> set (getScalePitchClasses Key_Cb t) \<and> 11 \<in> set (getScalePitchClasses Key_Cb t)"
  by (cases t) (simp_all add: getScalePitchClasses_def MAJOR_INTERVALS_def MINOR_INTERVALS_def js_rem_def)

text \<open>Claim C10. \<open>midiToNote\<close> emits a letter from A to G with at most one accidental, the
  spelling being an entry of one of the two tables: never C flat, F flat, E sharp or B sharp.
  Pitch class 11 is always spelled with the letter B and class 4 with the letter E, with no
  accidental when the class is diatonic, as it is for the roots G flat (class 11) and C flat
  (classes 4 and 11).\<close>

theorem single_accidental_spellings:
  assumes "0 \<le> p"
  shows "\<exists>n. midiToNote p r t = Inr n
    \<and> name n \<in> set [''A'', ''B'', ''C'', ''D'', ''E'', ''F'', ''G'']
    \<and> name n @ accidental_suffix (accidental n) \<in> set NOTE_NAMES_SHARP \<union> set NOTE_NAMES_FLAT
    \<and> (name n, accidental n)
         \<notin> {(''C'', Some Flat), (''F'', Some Flat), (''E'', Some Sharp), (''B'', Some Sharp)}
    \<and> (js_rem p 12 = 11 \<longrightarrow> name n = ''B''
          \<and> (11 \<in> set (getScalePitchClasses r t) \<longrightarrow> accidental n = None)
          \<and> (r = Key_Gb \<or> r = Key_Cb \<longrightarrow> accidental n = None))
    \<and> (js_rem p 12 = 4 \<longrightarrow> name n = ''E''
          \<and> (4 \<in> set (getScalePitchClasses r t) \<longrightarrow> accidental n = None)
          \<and> (r = Key_Cb \<longrightarrow> accidental n = None))"
proof -
  let ?d = "p mod 12 \<in> set (getScalePitchClasses r t)"
  let ?sp = "spelled (shouldUseFlats r t) ?d (p mod 12)"
  let ?n = "\<lparr>midi = p, name = fst ?sp, octave = p div 12 - 1, accidental = snd ?sp,
             duration = None\<rparr>"
  have n: "midiToNote p r t = Inr ?n"
    by (rule midiToNote_spelled[OF assms])
  have c: "0 \<le> p mod 12" "p mod 12 < 12" by simp_all
  note tab = spelled_table[OF c, of "shouldUseFlats r t" ?d]
  have b: "p mod 12 = 11 \<longrightarrow> fst ?sp = ''B''
          \<and> (11 \<in> set (getScalePitchClasses r t) \<longrightarrow> snd ?sp = None)
          \<and> (r = Key_Gb \<or> r = Key_Cb \<longrightarrow> snd ?sp = None)"
    using scale_Gb_has_11[of t] scale_Cb_has_4_11[of t] by (auto simp add: spelled_def)
  have e: "p mod 12 = 4 \<longrightarrow> fst ?sp = ''E''
          \<and> (4 \<in> set (getScalePitchClasses r t) \<longrightarrow> snd ?sp = None)
          \<and> (r = Key_Cb \<longrightarrow> snd ?sp = None)"
    using scale_Cb_has_4_11[of t] by (auto simp add: spelled_def)
  have sel: "name ?n = fst ?sp" "accidental ?n = snd ?sp" by simp_all
  show ?thesis
  proof (intro exI[of _ ?n] conjI)
    show "midiToNote p r t = Inr ?n" by (rule n)
    show "name ?n \<in> set [''A'', ''B'', ''C'', ''D'', ''E'', ''F'', ''G'']"
      unfolding sel using tab by blast
    show "name ?n @ accidental_suffix (accidental ?n) \<in> set NOTE_NAMES_SHARP \<union> set NOTE_NAMES_FLAT"
      unfolding sel using tab by blast
    show "(name ?n, accidental ?n)
         \<notin> {(''C'', Some Flat), (''F'', Some Flat), (''E'', Some Sharp), (''B'', Some Sharp)}"
      unfolding sel using tab by blast
    show "js_rem p 12 = 11 \<longrightarrow> name ?n = ''B''
          \<and> (11 \<in> set (getScalePitchClasses r t) \<longrightarrow> accidental ?n = None)
          \<and> (r = Key_Gb \<or> r = Key_Cb \<longrightarrow> accidental ?n = None)"
      unfolding sel js_rem_nonneg[OF assms] by (rule b)
    show "js_rem p 12 = 4 \<longrightarrow> name ?n = ''E''
          \<and> (4 \<in> set (getScalePitchClasses r t) \<longrightarrow> accidental ?n = None)
          \<and> (r = Key_Cb \<longrightarrow> accidental ?n = None)"
      unfolding sel js_rem_nonneg[OF assms] by (rule e)
  qed
qed

theorem single_accidental_spellings_witness:
  "(0::int) \<le> 71 \<and> (\<exists>n. midiToNote 71 Key_Gb major = Inr n \<and> js_rem 71 12 = 11
      \<and> name n = ''B'' \<and> accidental n = None)"
  using single_accidental_spellings[of 71 Key_Gb major]
  by (auto simp add: js_rem_def)

section \<open>The random valid pitch: properties\<close>

declare random_attempts.simps [simp del]
declare linear_scan.simps [simp del]

subsection \<open>Rounding to a double\<close>

declare scale_down.simps [simp del]
declare scale_up.simps [simp del]

lemma weight_power_int: "weight e = power_int 2 e"
  by (simp add: weight_def power_int_def power_divide inverse_eq_divide)

lemma weight_zero: "weight 0 = 1"
  by (simp add: weight_def)

lemma weight_pos: "0 < weight e"
  by (simp add: weight_power_int)

lemma weight_Suc: "weight (e + 1) = weight e * 2"
  unfolding weight_power_int by (rule power_int_add_1) simp

lemma weight_pred: "weight (e - 1) * 2 = weight e"
  unfolding weight_power_int by (rule power_int_minus_mult) simp

lemma weight_mono: "e \<le> e' \<Longrightarrow> weight e \<le> weight e'"
  unfolding weight_power_int by (rule power_int_increasing) simp_all

lemma rne_frac_upper:
  assumes "0 < b"
  shows "(of_int (rne_frac a b) :: rat) \<le> of_int a / of_int b + 1 / 2"
proof -
  let ?f = "a div b" and ?r = "a mod b"
  have a: "(of_int a :: rat) = of_int ?f * of_int b + of_int ?r"
    by (metis div_mult_mod_eq of_int_add of_int_mult)
  have b: "(0::rat) < of_int b" using assms by simp
  have r: "0 \<le> ?r" using assms by simp
  have q: "(of_int a :: rat) / of_int b = of_int ?f + of_int ?r / of_int b"
    using b by (simp add: a add_divide_distrib)
  have lo: "(of_int ?f :: rat) \<le> of_int a / of_int b"
    using r b by (simp add: q)
  have hi: "(of_int (?f + 1) :: rat) \<le> of_int a / of_int b + 1 / 2" if "b \<le> 2 * ?r"
  proof -
    from that have "(of_int b :: rat) \<le> 2 * of_int ?r"
      by (metis of_int_le_iff of_int_mult of_int_numeral)
    then have "(1::rat) / 2 \<le> of_int ?r / of_int b" using b by (simp add: field_simps)
    then show ?thesis unfolding q of_int_add of_int_1 by linarith
  qed
  show ?thesis
    unfolding rne_frac_def Let_def using lo hi by (auto simp add: not_less; linarith)
qed

lemma rne_frac_nonneg: "0 < b \<Longrightarrow> 0 \<le> a \<Longrightarrow> 0 \<le> rne_frac a b"
  unfolding rne_frac_def Let_def by (auto simp add: pos_imp_zdiv_nonneg_iff; linarith)

lemma scale_down_spec:
  "scale_down a b e = (a', b', e') \<Longrightarrow> 0 < b \<Longrightarrow>
     a' = a \<and> 0 < b' \<and> a' < 9007199254740992 * b'
     \<and> (of_int a' / of_int b') * weight e' = (of_int a / of_int b) * weight e"
proof (induction a b e rule: scale_down.induct)
  case (1 a b e)
  show ?case
  proof (cases "0 < b \<and> 9007199254740992 * b \<le> a")
    case True
    with "1.prems" have rec: "scale_down a (2 * b) (e + 1) = (a', b', e')"
      by (simp add: scale_down.simps[of a b])
    have pos: "0 < 2 * b" using "1.prems"(2) by simp
    from "1.IH"[OF True rec pos]
    have ih: "a' = a" "0 < b'" "a' < 9007199254740992 * b'"
      "(of_int a' / of_int b') * weight e' = (of_int a / of_int (2 * b)) * weight (e + 1)"
      by blast+
    have "(of_int a / of_int (2 * b)) * weight (e + 1) = (of_int a / of_int b) * weight e"
      by (simp add: weight_Suc)
    then have "(of_int a' / of_int b') * weight e' = (of_int a / of_int b) * weight e"
      by (simp only: ih(4))
    with ih(1-3) show ?thesis by blast
  next
    case False
    with "1.prems" show ?thesis by (auto simp add: scale_down.simps[of a b])
  qed
qed

lemma scale_up_spec:
  "scale_up a b e = (a', b', e') \<Longrightarrow> 0 < b \<Longrightarrow> a < 9007199254740992 * b \<Longrightarrow>
     b' = b \<and> a' < 9007199254740992 * b' \<and> (4503599627370496 * b' \<le> a' \<or> e' \<le> - 1074)
     \<and> (0 < a \<longrightarrow> 0 < a')
     \<and> (of_int a' / of_int b') * weight e' = (of_int a / of_int b) * weight e"
proof (induction a b e rule: scale_up.induct)
  case (1 a b e)
  show ?case
  proof (cases "a < 4503599627370496 * b \<and> - 1074 < e")
    case True
    with "1.prems" have rec: "scale_up (2 * a) b (e - 1) = (a', b', e')"
      by (simp add: scale_up.simps[of a b])
    have lt: "2 * a < 9007199254740992 * b" using True by simp
    from "1.IH"[OF True rec "1.prems"(2) lt]
    have ih: "b' = b" "a' < 9007199254740992 * b'"
      "4503599627370496 * b' \<le> a' \<or> e' \<le> - 1074" "0 < 2 * a \<longrightarrow> 0 < a'"
      "(of_int a' / of_int b') * weight e' = (of_int (2 * a) / of_int b) * weight (e - 1)"
      by blast+
    have "(of_int (2 * a) / of_int b) * weight (e - 1)
            = (of_int a / of_int b) * (weight (e - 1) * 2)"
      by simp
    also have "\<dots> = (of_int a / of_int b) * weight e"
      by (simp only: weight_pred)
    finally have eq: "(of_int a' / of_int b') * weight e' = (of_int a / of_int b) * weight e"
      by (simp only: ih(5))
    have "0 < a \<longrightarrow> 0 < a'" using ih(4) by simp
    with ih(1-3) eq show ?thesis by blast
  next
    case False
    with "1.prems" show ?thesis by (auto simp add: scale_up.simps[of a b])
  qed
qed

lemma round_nonneg_scaled:
  assumes "0 < q"
  obtains s N e where "round_nonneg q = of_int N * power_int 2 e" "s * power_int 2 e = q"
    "0 < s" "s < 2 ^ 53" "2 ^ 52 \<le> s \<or> e \<le> - 1074" "of_int N \<le> s + 1 / 2" "0 \<le> N"
proof -
  obtain a b where ab: "quotient_of q = (a, b)" by (cases "quotient_of q")
  then have b: "0 < b" and q: "q = of_int a / of_int b"
    by (simp_all add: quotient_of_denom_pos quotient_of_div)
  have a: "0 < a" using assms q b by (simp add: zero_less_divide_iff)
  obtain a1 b1 e1 where d: "scale_down a b 0 = (a1, b1, e1)" by (cases "scale_down a b 0")
  obtain a2 b2 e where u: "scale_up a1 b1 e1 = (a2, b2, e)" by (cases "scale_up a1 b1 e1")
  from scale_down_spec[OF d b]
  have d': "a1 = a" "0 < b1" "a1 < 9007199254740992 * b1"
    "(of_int a1 / of_int b1) * weight e1 = q"
    by (auto simp add: q weight_zero)
  have a1: "0 < a1" using a d'(1) by simp
  from scale_up_spec[OF u d'(2,3)]
  have u0: "b2 = b1" "a2 < 9007199254740992 * b2"
    "4503599627370496 * b2 \<le> a2 \<or> e \<le> - 1074" "0 < a1 \<longrightarrow> 0 < a2"
    "(of_int a2 / of_int b2) * weight e = (of_int a1 / of_int b1) * weight e1"
    by blast+
  have u': "b2 = b1" "a2 < 9007199254740992 * b2"
    "4503599627370496 * b2 \<le> a2 \<or> e \<le> - 1074" "0 < a2"
    "(of_int a2 / of_int b2) * weight e = q"
    using u0 a1 d'(4) by (blast, blast, blast, blast, simp only:)
  have b2: "0 < b2" using u'(1) d'(2) by simp
  define s :: rat where "s = of_int a2 / of_int b2"
  have r: "round_nonneg q = of_int (rne_frac a2 b2) * power_int 2 e"
    using a ab d u by (simp add: round_nonneg_def weight_power_int)
  have 1: "s * power_int 2 e = q" using u'(5) by (simp add: s_def weight_power_int)
  have 2: "0 < s" using u'(4) b2 by (simp add: s_def)
  have "(of_int a2 :: rat) < of_int (9007199254740992 * b2)"
    using u'(2) by (simp only: of_int_less_iff)
  then have 3: "s < 2 ^ 53" using b2 by (simp add: s_def field_simps)
  have 4: "2 ^ 52 \<le> s \<or> e \<le> - 1074"
  proof (cases "e \<le> - 1074")
    case True
    then show ?thesis by simp
  next
    case False
    with u'(3) have "(of_int (4503599627370496 * b2) :: rat) \<le> of_int a2"
      by (simp only: of_int_le_iff) simp
    then show ?thesis using b2 by (simp add: s_def field_simps)
  qed
  have 5: "of_int (rne_frac a2 b2) \<le> s + 1 / 2"
    unfolding s_def by (rule rne_frac_upper[OF b2])
  have 6: "0 \<le> rne_frac a2 b2" using b2 u'(4) by (intro rne_frac_nonneg) simp_all
  from that[OF r 1 2 3 4 5 6] show ?thesis .
qed

lemma round_double_nonneg: "0 \<le> q \<Longrightarrow> 0 \<le> round_double q"
proof (cases "q = 0")
  case True
  then show ?thesis by (simp add: round_double_def round_nonneg_def)
next
  case False
  assume "0 \<le> q"
  with False have q: "0 < q" by simp
  from round_nonneg_scaled[OF q] obtain N e where
    r: "round_nonneg q = of_int N * power_int 2 e" and N: "0 \<le> N"
    by metis
  have "(0::rat) \<le> of_int N * power_int 2 e" using N by simp
  with r q show ?thesis by (simp add: round_double_def)
qed

lemma small_weight: "e \<le> - 1074 \<Longrightarrow> power_int (2::rat) e \<le> 1 / 2 ^ 54"
proof -
  assume "e \<le> - 1074"
  then have "e \<le> - 54" by simp
  then have "power_int (2::rat) e \<le> power_int 2 (- 54)"
    by (intro power_int_increasing) simp_all
  then show ?thesis by (simp add: inverse_eq_divide)
qed

text \<open>The product of a draw below 1 and n never rounds up to n.\<close>

lemma round_double_below:
  assumes "0 \<le> q" "1 \<le> n" "q \<le> n * (1 - 1 / 2 ^ 53)"
  shows "round_double q < n"
proof (cases "q = 0")
  case True
  with assms(2) show ?thesis by (simp add: round_double_def round_nonneg_def)
next
  case False
  with assms(1) have q: "0 < q" by simp
  from round_nonneg_scaled[OF q] obtain s N e where
    r: "round_nonneg q = of_int N * power_int 2 e" and sq: "s * power_int 2 e = q"
    and s: "0 < s" "s < 2 ^ 53" and c: "2 ^ 52 \<le> s \<or> e \<le> - 1074"
    and N: "of_int N \<le> s + 1 / 2"
    by metis
  define W where "W = power_int (2::rat) e"
  have W: "0 < W" by (simp add: W_def)
  have "of_int N * W \<le> (s + 1 / 2) * W"
    using N W by (intro mult_right_mono) simp_all
  then have up: "of_int N * W \<le> q + W / 2"
    using sq by (simp add: W_def algebra_simps)
  have "q + W / 2 < n"
  proof (cases "2 ^ 52 \<le> s")
    case True
    then have "2 ^ 52 * W \<le> s * W" using W by (intro mult_right_mono) simp_all
    then have "2 ^ 52 * W \<le> q" using sq by (simp add: W_def)
    then have "W / 2 \<le> q / 2 ^ 53" by simp
    also have "\<dots> \<le> n * (1 - 1 / 2 ^ 53) / 2 ^ 53"
      using assms(3) by (intro divide_right_mono) simp_all
    finally have "q + W / 2 \<le> n * (1 - 1 / 2 ^ 53) + n * (1 - 1 / 2 ^ 53) / 2 ^ 53"
      using assms(3) by simp
    also have "\<dots> = n * ((1 - 1 / 2 ^ 53) * (1 + 1 / 2 ^ 53))"
      by (simp add: algebra_simps)
    also have "\<dots> < n * 1"
      using assms(2) by (intro mult_strict_left_mono) simp_all
    finally show ?thesis by simp
  next
    case False
    with c have "e \<le> - 1074" by simp
    from small_weight[OF this] have w: "W \<le> 1 / 2 ^ 54" by (simp add: W_def)
    have "q = s * W" using sq by (simp add: W_def)
    also have "\<dots> \<le> 2 ^ 53 * W" using s(2) W by (intro mult_right_mono) simp_all
    also have "\<dots> \<le> 2 ^ 53 * (1 / 2 ^ 54)" using w by (intro mult_left_mono) simp_all
    finally have "q \<le> 1 / 2" by simp
    moreover have "W / 2 < 1 / 2" using w by simp
    ultimately show ?thesis using assms(2) by simp
  qed
  with up have "of_int N * W < n" by simp
  with r q show ?thesis by (simp add: round_double_def W_def)
qed

text \<open>A double below 1 is at most \<open>1 - 2\<^sup>-\<^sup>5\<^sup>3\<close>.\<close>

lemma double_below_one:
  assumes "is_double r" "0 \<le> r" "r < 1"
  shows "r \<le> 1 - 1 / 2 ^ 53"
proof (cases "r = 0")
  case True
  then show ?thesis by simp
next
  case False
  with assms(2) have q: "0 < r" by simp
  from round_nonneg_scaled[OF q] obtain s N e where
    r: "round_nonneg r = of_int N * power_int 2 e" and sq: "s * power_int 2 e = r"
    and s: "0 < s" "s < 2 ^ 53" and c: "2 ^ 52 \<le> s \<or> e \<le> - 1074"
    by metis
  define W where "W = power_int (2::rat) e"
  have W: "0 < W" by (simp add: W_def)
  from assms(1) q r sq have "of_int N * W = s * W"
    by (simp add: is_double_def round_double_def W_def)
  with W have int: "s = of_int N" by simp
  from s(2) int have "N < 2 ^ 53"
    by (metis of_int_less_iff of_int_numeral of_int_power)
  then have "N \<le> 2 ^ 53 - 1" by simp
  then have "(of_int N :: rat) \<le> of_int (2 ^ 53 - 1)" by (simp only: of_int_le_iff)
  with int have sle: "s \<le> 2 ^ 53 - 1" by simp
  have w: "W \<le> 1 / 2 ^ 53"
  proof (cases "2 ^ 52 \<le> s")
    case True
    then have "2 ^ 52 * W \<le> s * W" using W by (intro mult_right_mono) simp_all
    with sq assms(3) have "2 ^ 52 * W < 1" by (simp add: W_def)
    then have "W < power_int 2 (- 52)" by (simp add: power_int_minus field_simps)
    then have "e < - 52" unfolding W_def
      by (metis not_le power_int_increasing one_le_numeral)
    then have "e \<le> - 53" by simp
    then have "W \<le> power_int 2 (- 53)" unfolding W_def
      by (intro power_int_increasing) simp_all
    then show ?thesis by (simp add: inverse_eq_divide)
  next
    case False
    with c have "e \<le> - 1074" by simp
    from small_weight[OF this] have "W \<le> 1 / 2 ^ 54" by (simp add: W_def)
    also have "\<dots> \<le> 1 / 2 ^ 53" by simp
    finally show ?thesis .
  qed
  have "r = s * W" using sq by (simp add: W_def)
  also have "\<dots> \<le> (2 ^ 53 - 1) * W" using sle W by (intro mult_right_mono) simp_all
  also have "\<dots> \<le> (2 ^ 53 - 1) * (1 / 2 ^ 53)" using w by (intro mult_left_mono) simp_all
  also have "\<dots> = 1 - 1 / 2 ^ 53" by simp
  finally show ?thesis .
qed

subsection \<open>Drawing an integer\<close>

lemma getRandomInt_range:
  assumes "unit_double r" "mn \<le> mx"
  shows "mn \<le> getRandomInt r mn mx \<and> getRandomInt r mn mx \<le> mx"
proof -
  let ?n = "mx - mn + 1"
  let ?q = "r * of_int ?n"
  from assms(1) have r: "is_double r" "0 \<le> r" "r < 1" by (simp_all add: unit_double_def)
  have n: "(1::rat) \<le> of_int ?n" using assms(2) by simp
  have q: "0 \<le> ?q" using r(2) n by simp
  have "?q \<le> (1 - 1 / 2 ^ 53) * of_int ?n"
    using double_below_one[OF r] n by (intro mult_right_mono) simp_all
  then have "?q \<le> of_int ?n * (1 - 1 / 2 ^ 53)" by (simp add: mult.commute)
  from round_double_below[OF q n this] have "\<lfloor>round_double ?q\<rfloor> < ?n"
    by (simp only: floor_less_iff)
  moreover have "0 \<le> \<lfloor>round_double ?q\<rfloor>" using round_double_nonneg[OF q] by simp
  ultimately show ?thesis by (simp add: getRandomInt_def)
qed

lemma double_draws_cycle:
  assumes "xs \<noteq> []" "list_all unit_double xs"
  shows "double_draws (cycle_draws xs)"
proof -
  have "unit_double (xs ! (k mod length xs))" for k
    using assms by (simp add: list_all_length)
  then show ?thesis by (simp add: double_draws_def cycle_draws_def)
qed

lemma double_draws_zero: "double_draws (cycle_draws [0])"
  by (rule double_draws_cycle) (simp, code_simp)

lemma double_draws_a: "double_draws (cycle_draws draws_a)"
  by (rule double_draws_cycle) (simp add: draws_a_def, code_simp)

lemma double_draws_b: "double_draws (cycle_draws draws_b)"
  by (rule double_draws_cycle) (simp add: draws_b_def, code_simp)

lemma double_draws_c: "double_draws (cycle_draws draws_c)"
  by (rule double_draws_cycle) (simp add: draws_c_def, code_simp)

text \<open>The rounding of the product is visible in the integer drawn: the exact product of the
  double 0.6944444444444444 and 36 is below 25, the double product is 25; likewise for the
  doubles nearest to 3/7 (times 28) and to 1/3 (times 3).\<close>

lemma getRandomInt_rounded_product:
  "unit_double (3127499741229511 / 4503599627370496)
   \<and> \<lfloor>(3127499741229511 / 4503599627370496 :: rat) * 36\<rfloor> = 24
   \<and> getRandomInt (3127499741229511 / 4503599627370496) 53 88 = 78
   \<and> \<lfloor>(7720456504063707 / 18014398509481984 :: rat) * 28\<rfloor> = 11
   \<and> getRandomInt (7720456504063707 / 18014398509481984) 29 56 = 41
   \<and> \<lfloor>(6004799503160661 / 18014398509481984 :: rat) * 3\<rfloor> = 0
   \<and> getRandomInt (6004799503160661 / 18014398509481984) 4 6 = 5"
  by code_simp

text \<open>The literal \<open>0.7\<close> of the seventh flag is the double nearest to 7/10.\<close>

lemma seventh_threshold: "round_double (7 / 10) = 3152519739159347 / 4503599627370496"
  by code_simp

lemma random_attempts_Some:
  "random_attempts valid rs mn mx a pos = (Some m, p') \<Longrightarrow>
     \<exists>k. a + k < 100 \<and> p' = pos + k + 1 \<and> m = getRandomInt (rs (pos + k)) mn mx \<and> valid m
       \<and> (\<forall>j<k. \<not> valid (getRandomInt (rs (pos + j)) mn mx))"
proof (induction valid rs mn mx a pos rule: random_attempts.induct)
  case (1 valid rs mn mx attempts pos)
  show ?case
  proof (cases "attempts < 100")
    case False
    with "1.prems" show ?thesis by (simp add: random_attempts.simps[of _ _ _ _ attempts])
  next
    case lt: True
    show ?thesis
    proof (cases "valid (getRandomInt (rs pos) mn mx)")
      case True
      with lt "1.prems" have "m = getRandomInt (rs pos) mn mx" "p' = pos + 1"
        by (simp_all add: random_attempts.simps[of _ _ _ _ attempts])
      with True lt show ?thesis by (intro exI[of _ 0]) simp
    next
      case False
      with lt "1.prems"
      have "random_attempts valid rs mn mx (attempts + 1) (pos + 1) = (Some m, p')"
        by (simp add: random_attempts.simps[of _ _ _ _ attempts])
      from "1.IH"[OF lt refl False this] obtain k where
        k: "attempts + 1 + k < 100" "p' = pos + 1 + k + 1"
           "m = getRandomInt (rs (pos + 1 + k)) mn mx" "valid m"
           "\<forall>j<k. \<not> valid (getRandomInt (rs (pos + 1 + j)) mn mx)"
        by blast
      have "\<forall>j<Suc k. \<not> valid (getRandomInt (rs (pos + j)) mn mx)"
      proof (intro allI impI)
        fix j assume "j < Suc k"
        then show "\<not> valid (getRandomInt (rs (pos + j)) mn mx)"
          using False k(5) by (cases j) simp_all
      qed
      with k show ?thesis by (intro exI[of _ "Suc k"]) simp
    qed
  qed
qed

lemma random_attempts_None:
  "random_attempts valid rs mn mx a pos = (None, p') \<Longrightarrow>
     p' = pos + (100 - a) \<and> (\<forall>j. a + j < 100 \<longrightarrow> \<not> valid (getRandomInt (rs (pos + j)) mn mx))"
proof (induction valid rs mn mx a pos rule: random_attempts.induct)
  case (1 valid rs mn mx attempts pos)
  show ?case
  proof (cases "attempts < 100")
    case False
    with "1.prems" show ?thesis by (simp add: random_attempts.simps[of _ _ _ _ attempts])
  next
    case lt: True
    show ?thesis
    proof (cases "valid (getRandomInt (rs pos) mn mx)")
      case True
      with lt "1.prems" show ?thesis
        by (simp add: random_attempts.simps[of _ _ _ _ attempts])
    next
      case False
      with lt "1.prems"
      have "random_attempts valid rs mn mx (attempts + 1) (pos + 1) = (None, p')"
        by (simp add: random_attempts.simps[of _ _ _ _ attempts])
      from "1.IH"[OF lt refl False this]
      have p': "p' = pos + 1 + (100 - (attempts + 1))"
        and rest: "\<forall>j. attempts + 1 + j < 100 \<longrightarrow> \<not> valid (getRandomInt (rs (pos + 1 + j)) mn mx)"
        by blast+
      have "\<forall>j. attempts + j < 100 \<longrightarrow> \<not> valid (getRandomInt (rs (pos + j)) mn mx)"
      proof (intro allI impI)
        fix j assume "attempts + j < 100"
        then show "\<not> valid (getRandomInt (rs (pos + j)) mn mx)"
          using False rest by (cases j) simp_all
      qed
      with p' lt show ?thesis by simp
    qed
  qed
qed

lemma linear_scan_Some:
  "linear_scan valid i mx = Some m \<Longrightarrow>
     i \<le> m \<and> m \<le> mx \<and> valid m \<and> (\<forall>j. i \<le> j \<and> j < m \<longrightarrow> \<not> valid j)"
proof (induction valid i mx rule: linear_scan.induct)
  case (1 valid i mx)
  show ?case
  proof (cases "i \<le> mx \<and> \<not> valid i")
    case False
    with "1.prems" show ?thesis
      by (auto simp add: linear_scan.simps[of _ i] split: if_splits)
  next
    case True
    with "1.prems" have "linear_scan valid (i + 1) mx = Some m"
      by (simp add: linear_scan.simps[of _ i])
    from "1.IH"[OF _ _ this] True
    have ih: "i + 1 \<le> m" "m \<le> mx" "valid m" "\<forall>j. i + 1 \<le> j \<and> j < m \<longrightarrow> \<not> valid j"
      by blast+
    have "\<forall>j. i \<le> j \<and> j < m \<longrightarrow> \<not> valid j"
    proof (intro allI impI)
      fix j assume "i \<le> j \<and> j < m"
      then have "j = i \<or> (i + 1 \<le> j \<and> j < m)" by arith
      then show "\<not> valid j" using True ih(4) by blast
    qed
    with ih show ?thesis by simp
  qed
qed

lemma linear_scan_None:
  "linear_scan valid i mx = None \<Longrightarrow> (\<forall>j. i \<le> j \<and> j \<le> mx \<longrightarrow> \<not> valid j)"
proof (induction valid i mx rule: linear_scan.induct)
  case (1 valid i mx)
  show ?case
  proof (cases "i \<le> mx")
    case False
    then show ?thesis by auto
  next
    case True
    with "1.prems" have nv: "\<not> valid i" and "linear_scan valid (i + 1) mx = None"
      by (simp_all add: linear_scan.simps[of _ i] split: if_splits)
    from "1.IH"[OF True nv this(2)]
    have ih: "\<forall>j. i + 1 \<le> j \<and> j \<le> mx \<longrightarrow> \<not> valid j" .
    show ?thesis
    proof (intro allI impI)
      fix j assume "i \<le> j \<and> j \<le> mx"
      then have "j = i \<or> (i + 1 \<le> j \<and> j \<le> mx)" by arith
      then show "\<not> valid j" using nv ih by blast
    qed
  qed
qed

lemma getValidRandomMidi_cases:
  obtains (hit) k where "k < 100"
      "getValidRandomMidi valid rs mn mx pos = (getRandomInt (rs (pos + k)) mn mx, pos + k + 1)"
      "valid (getRandomInt (rs (pos + k)) mn mx)"
      "\<forall>j<k. \<not> valid (getRandomInt (rs (pos + j)) mn mx)"
  | (scan) m where "\<forall>j<100. \<not> valid (getRandomInt (rs (pos + j)) mn mx)"
      "getValidRandomMidi valid rs mn mx pos = (m, pos + 100)"
      "mn \<le> m" "m \<le> mx" "valid m" "\<forall>i. mn \<le> i \<and> i < m \<longrightarrow> \<not> valid i"
  | (none) "\<forall>j<100. \<not> valid (getRandomInt (rs (pos + j)) mn mx)"
      "getValidRandomMidi valid rs mn mx pos = (mn, pos + 100)"
      "\<forall>i. mn \<le> i \<and> i \<le> mx \<longrightarrow> \<not> valid i"
proof -
  obtain res p' where ra: "random_attempts valid rs mn mx 0 pos = (res, p')"
    by (cases "random_attempts valid rs mn mx 0 pos")
  show ?thesis
  proof (cases res)
    case (Some m)
    from random_attempts_Some[OF ra[unfolded Some]] obtain k where
      k: "k < 100" "p' = pos + k + 1" "m = getRandomInt (rs (pos + k)) mn mx" "valid m"
         "\<forall>j<k. \<not> valid (getRandomInt (rs (pos + j)) mn mx)"
      by auto
    have "getValidRandomMidi valid rs mn mx pos = (getRandomInt (rs (pos + k)) mn mx, pos + k + 1)"
      using ra Some k(2,3) by (simp add: getValidRandomMidi_def)
    then show ?thesis using k by (intro hit[of k]) simp_all
  next
    case None
    from random_attempts_None[OF ra[unfolded None]]
    have p': "p' = pos + 100"
      and inv: "\<forall>j<100. \<not> valid (getRandomInt (rs (pos + j)) mn mx)"
      by simp_all
    show ?thesis
    proof (cases "linear_scan valid mn mx")
      case ls: (Some m)
      have "getValidRandomMidi valid rs mn mx pos = (m, pos + 100)"
        using ra None p' ls by (simp add: getValidRandomMidi_def)
      then show ?thesis using linear_scan_Some[OF ls] inv by (intro scan[of m]) simp_all
    next
      case ls: None
      have "getValidRandomMidi valid rs mn mx pos = (mn, pos + 100)"
        using ra None p' ls by (simp add: getValidRandomMidi_def)
      then show ?thesis using linear_scan_None[OF ls] inv by (intro none) simp_all
    qed
  qed
qed

lemma getValidRandomMidi_range:
  assumes "double_draws rs" "mn \<le> mx"
  shows "mn \<le> fst (getValidRandomMidi valid rs mn mx pos)
    \<and> fst (getValidRandomMidi valid rs mn mx pos) \<le> mx"
proof (cases rule: getValidRandomMidi_cases[where valid=valid and rs=rs and mn=mn and mx=mx and pos=pos])
  case (hit k)
  have "unit_double (rs (pos + k))"
    using assms(1) by (simp add: double_draws_def)
  from getRandomInt_range[OF this assms(2)] hit(2) show ?thesis by simp
next
  case (scan m)
  then show ?thesis by simp
next
  case none
  then show ?thesis using assms(2) by simp
qed

lemma getValidRandomMidi_valid:
  assumes "mn \<le> i" "i \<le> mx" "valid i"
  shows "valid (fst (getValidRandomMidi valid rs mn mx pos))"
proof (cases rule: getValidRandomMidi_cases[where valid=valid and rs=rs and mn=mn and mx=mx and pos=pos])
  case (hit k)
  then show ?thesis by simp
next
  case (scan m)
  then show ?thesis by simp
next
  case none
  then show ?thesis using assms by blast
qed

text \<open>Claim C4. For every \<open>min \<le> max\<close> and every validity predicate, \<open>getValidRandomMidi\<close>
  returns (it is a total function and has no exception) a pitch between \<open>min\<close> and \<open>max\<close>: the
  first valid one of at most 100 draws, or else, after exactly 100 draws, the least valid pitch
  of the range, or the range minimum when the range has no valid pitch.\<close>

theorem getValidRandomMidi_two_tier_fallback:
  assumes "double_draws rs" and "mn \<le> mx"
  shows "\<exists>m pos'. getValidRandomMidi valid rs mn mx pos = (m, pos') \<and> mn \<le> m \<and> m \<le> mx
    \<and> ((\<exists>k<100. pos' = pos + k + 1 \<and> m = getRandomInt (rs (pos + k)) mn mx \<and> valid m
            \<and> (\<forall>j<k. \<not> valid (getRandomInt (rs (pos + j)) mn mx)))
        \<or> ((\<forall>j<100. \<not> valid (getRandomInt (rs (pos + j)) mn mx)) \<and> pos' = pos + 100
            \<and> ((valid m \<and> (\<forall>i. mn \<le> i \<and> i < m \<longrightarrow> \<not> valid i))
                \<or> ((\<forall>i. mn \<le> i \<and> i \<le> mx \<longrightarrow> \<not> valid i) \<and> m = mn))))"
proof -
  note range = getValidRandomMidi_range[OF assms, of valid pos]
  show ?thesis
  proof (cases rule: getValidRandomMidi_cases[where valid=valid and rs=rs and mn=mn and mx=mx and pos=pos])
    case (hit k)
    with range show ?thesis by auto
  next
    case (scan m)
    then show ?thesis by auto
  next
    case none
    with assms(2) show ?thesis by auto
  qed
qed

theorem getValidRandomMidi_two_tier_fallback_witness:
  "double_draws (cycle_draws [0]) \<and> double_draws (cycle_draws draws_a) \<and> (53::int) \<le> 88
   \<and> getValidRandomMidi (\<lambda>m. m = 60) (cycle_draws [0]) 53 88 0 = (60, 100)
   \<and> getValidRandomMidi (\<lambda>m. m = 20) (cycle_draws [0]) 53 88 0 = (53, 100)
   \<and> getValidRandomMidi (\<lambda>m. m mod 12 = 6) (cycle_draws draws_a) 53 88 0 = (78, 1)"
proof -
  have ev: "getValidRandomMidi (\<lambda>m. m = 60) (cycle_draws [0]) 53 88 0 = (60, 100)"
    "getValidRandomMidi (\<lambda>m. m = 20) (cycle_draws [0]) 53 88 0 = (53, 100)"
    "getValidRandomMidi (\<lambda>m. m mod 12 = 6) (cycle_draws draws_a) 53 88 0 = (78, 1)"
    by code_simp+
  have le: "(53::int) \<le> 88" by simp
  from getValidRandomMidi_two_tier_fallback[OF double_draws_zero le, of "\<lambda>m. m = 60" 0]
  show ?thesis using double_draws_zero double_draws_a ev by simp
qed

section \<open>Diatonic pitch classes\<close>

lemma root_nonneg: "0 \<le> ROOT_MIDI_VALUES r"
  by (cases r) simp_all

lemma pc_shift:
  fixes x :: int
  assumes "0 \<le> i" "i < 12"
  shows "(x mod 12 = (\<rho> + i) mod 12) = ((x - \<rho>) mod 12 = i)"
proof -
  have "((x - \<rho>) mod 12 = i) = ((x - \<rho>) mod 12 = i mod 12)"
    using assms by simp
  also have "\<dots> = (12 dvd (x - \<rho> - i))"
    by (rule mod_eq_dvd_iff)
  also have "x - \<rho> - i = x - (\<rho> + i)" by simp
  also have "(12 dvd (x - (\<rho> + i))) = (x mod 12 = (\<rho> + i) mod 12)"
    by (rule mod_eq_dvd_iff[symmetric])
  finally show ?thesis by simp
qed

lemma scale_shape:
  "length (getScalePitchClasses r t) = 7 \<and> distinct (getScalePitchClasses r t)
     \<and> (\<forall>c \<in> set (getScalePitchClasses r t). 0 \<le> c \<and> c < 12)"
  by (cases r; cases t)
     (simp_all add: getScalePitchClasses_def MAJOR_INTERVALS_def MINOR_INTERVALS_def js_rem_def)

lemma intervals_range: "i \<in> set (intervals_of t) \<Longrightarrow> 0 \<le> i \<and> i < 12"
  by (cases t) (auto simp add: intervals_of_def MAJOR_INTERVALS_def MINOR_INTERVALS_def)

lemma scale_as_map:
  "getScalePitchClasses r t = map (\<lambda>i. (ROOT_MIDI_VALUES r + i) mod 12) (intervals_of t)"
proof -
  have "js_rem (ROOT_MIDI_VALUES r + i) 12 = (ROOT_MIDI_VALUES r + i) mod 12"
    if "i \<in> set (intervals_of t)" for i
    using intervals_range[OF that] root_nonneg[of r] by (intro js_rem_nonneg) simp
  then show ?thesis
    by (simp add: getScalePitchClasses_def intervals_of_def)
qed

lemma scale_mem:
  "x mod 12 \<in> set (getScalePitchClasses r t)
     \<longleftrightarrow> (x - ROOT_MIDI_VALUES r) mod 12 \<in> set (intervals_of t)"
proof
  assume "x mod 12 \<in> set (getScalePitchClasses r t)"
  then obtain i where i: "i \<in> set (intervals_of t)" "x mod 12 = (ROOT_MIDI_VALUES r + i) mod 12"
    unfolding scale_as_map by auto
  from intervals_range[OF i(1)] i(2) have "(x - ROOT_MIDI_VALUES r) mod 12 = i"
    by (simp add: pc_shift)
  with i(1) show "(x - ROOT_MIDI_VALUES r) mod 12 \<in> set (intervals_of t)" by simp
next
  let ?i = "(x - ROOT_MIDI_VALUES r) mod 12"
  assume i: "?i \<in> set (intervals_of t)"
  from intervals_range[OF i] have "x mod 12 = (ROOT_MIDI_VALUES r + ?i) mod 12"
    by (subst pc_shift) simp_all
  with i show "x mod 12 \<in> set (getScalePitchClasses r t)"
    unfolding scale_as_map by (simp add: image_iff) blast
qed

lemma degree_stacking:
  assumes "d \<in> set (intervals_of t)"
  shows "((d + 3) mod 12 \<in> set (intervals_of t)) \<noteq> ((d + 4) mod 12 \<in> set (intervals_of t))"
    and "(d + 7) mod 12 \<in> set (intervals_of t) \<or> (d + 6) mod 12 \<in> set (intervals_of t)"
    and "(d + 11) mod 12 \<in> set (intervals_of t) \<or> (d + 10) mod 12 \<in> set (intervals_of t)"
  using assms
  by (cases t; auto simp add: intervals_of_def MAJOR_INTERVALS_def MINOR_INTERVALS_def)+

lemma scale_stacking:
  assumes "x mod 12 \<in> set (getScalePitchClasses r t)"
  shows "((x + 3) mod 12 \<in> set (getScalePitchClasses r t))
           \<noteq> ((x + 4) mod 12 \<in> set (getScalePitchClasses r t))"
    and "(x + 7) mod 12 \<in> set (getScalePitchClasses r t)
           \<or> (x + 6) mod 12 \<in> set (getScalePitchClasses r t)"
    and "(x + 11) mod 12 \<in> set (getScalePitchClasses r t)
           \<or> (x + 10) mod 12 \<in> set (getScalePitchClasses r t)"
proof -
  let ?d = "(x - ROOT_MIDI_VALUES r) mod 12"
  have d: "?d \<in> set (intervals_of t)" using assms by (simp only: scale_mem)
  have sh: "(x + k - ROOT_MIDI_VALUES r) mod 12 = (?d + k) mod 12" for k
  proof -
    have "(x + k - ROOT_MIDI_VALUES r) mod 12 = ((x - ROOT_MIDI_VALUES r) + k) mod 12"
      by (simp add: algebra_simps)
    also have "\<dots> = (?d + k) mod 12"
      by (rule mod_add_left_eq[symmetric])
    finally show ?thesis .
  qed
  show "((x + 3) mod 12 \<in> set (getScalePitchClasses r t))
           \<noteq> ((x + 4) mod 12 \<in> set (getScalePitchClasses r t))"
    unfolding scale_mem sh by (rule degree_stacking(1)[OF d])
  show "(x + 7) mod 12 \<in> set (getScalePitchClasses r t)
           \<or> (x + 6) mod 12 \<in> set (getScalePitchClasses r t)"
    unfolding scale_mem sh by (rule degree_stacking(2)[OF d])
  show "(x + 11) mod 12 \<in> set (getScalePitchClasses r t)
           \<or> (x + 10) mod 12 \<in> set (getScalePitchClasses r t)"
    unfolding scale_mem sh by (rule degree_stacking(3)[OF d])
qed

lemma diatonic_in_window:
  assumes "mn + 11 \<le> mx"
  shows "\<exists>i. mn \<le> i \<and> i \<le> mx \<and> i mod 12 \<in> set (getScalePitchClasses r t)"
proof -
  let ?\<rho> = "ROOT_MIDI_VALUES r"
  let ?i = "mn + (?\<rho> - mn) mod 12"
  have "(?i - ?\<rho>) mod 12 = ((mn - ?\<rho>) + (?\<rho> - mn) mod 12) mod 12"
    by (simp add: algebra_simps)
  also have "\<dots> = ((mn - ?\<rho>) + (?\<rho> - mn)) mod 12"
    by (rule mod_add_right_eq)
  finally have "(?i - ?\<rho>) mod 12 = 0" by simp
  moreover have "0 \<in> set (intervals_of t)"
    by (simp add: intervals_of_def MAJOR_INTERVALS_def MINOR_INTERVALS_def)
  ultimately have "?i mod 12 \<in> set (getScalePitchClasses r t)"
    by (simp only: scale_mem)
  moreover have "0 \<le> (?\<rho> - mn) mod 12" "(?\<rho> - mn) mod 12 < 12" by simp_all
  ultimately show ?thesis using assms by (intro exI[of _ ?i]) simp
qed

lemma isValidNote_nonneg:
  "0 \<le> m \<Longrightarrow> isValidNote s m
     \<longleftrightarrow> useAccidentals s \<or> m mod 12 \<in> set (getScalePitchClasses (keyRoot s) (keyType s))"
  by (simp add: isValidNote_def js_rem_nonneg)

lemma valid_pitch_exists:
  assumes "0 \<le> mn" "mn + 11 \<le> mx"
  shows "\<exists>i. mn \<le> i \<and> i \<le> mx \<and> isValidNote s i"
proof -
  from diatonic_in_window[OF assms(2)] obtain i where
    i: "mn \<le> i" "i \<le> mx" "i mod 12 \<in> set (getScalePitchClasses (keyRoot s) (keyType s))"
    by blast
  then have "isValidNote s i" using assms(1) by (simp add: isValidNote_nonneg)
  with i show ?thesis by blast
qed

lemma valid_random_pitch:
  assumes "double_draws rs" "0 \<le> mn" "mn + 11 \<le> mx"
  shows "mn \<le> fst (getValidRandomMidi (isValidNote s) rs mn mx pos)"
    and "fst (getValidRandomMidi (isValidNote s) rs mn mx pos) \<le> mx"
    and "isValidNote s (fst (getValidRandomMidi (isValidNote s) rs mn mx pos))"
proof -
  have le: "mn \<le> mx" using assms(3) by simp
  from getValidRandomMidi_range[OF assms(1) le]
  show "mn \<le> fst (getValidRandomMidi (isValidNote s) rs mn mx pos)"
    and "fst (getValidRandomMidi (isValidNote s) rs mn mx pos) \<le> mx"
    by blast+
  from valid_pitch_exists[OF assms(2,3)] obtain i where
    "mn \<le> i" "i \<le> mx" "isValidNote s i" by blast
  then show "isValidNote s (fst (getValidRandomMidi (isValidNote s) rs mn mx pos))"
    by (rule getValidRandomMidi_valid)
qed

section \<open>Chord mode: the accepted chords\<close>

lemma diatonic_chord_spec:
  "0 \<le> croot \<Longrightarrow> diatonic_chord dia croot f = spec_strict_chord dia croot f"
  by (simp add: diatonic_chord_def diatonic_upper_def spec_strict_chord_def spec_third_def
        spec_fifth_def spec_seventh_def js_rem_nonneg)

lemma chromatic_chord_spec:
  "chromatic_chord rs croot f pos =
     (spec_chromatic_chord croot (rs pos > 1 / 2) f (rs (pos + 1) > 1 / 2),
      pos + (if f then 2 else 1))"
  by (simp add: chromatic_chord_def spec_chromatic_chord_def)

lemma chord_attempt_unfold:
  assumes "getValidRandomMidi (isValidNote s) rs mn (mx - 11) pos = (croot, p1)" "0 \<le> croot"
  shows "chord_attempt s rs mn mx pos =
    (if \<not> useAccidentals s then
       (case spec_strict_chord (getScalePitchClasses (keyRoot s) (keyType s)) croot (rs p1 > round_double (7 / 10)) of
          None \<Rightarrow> (None, p1 + 1)
        | Some ms \<Rightarrow> if \<exists>m \<in> set ms. \<not> isValidNote s m then (None, p1 + 1) else (Some ms, p1 + 1))
     else (Some (spec_chromatic_chord croot (rs (p1 + 1) > 1 / 2) (rs p1 > round_double (7 / 10))
                   (rs (p1 + 2) > 1 / 2)),
           p1 + 1 + (if rs p1 > round_double (7 / 10) then 2 else 1)))"
  using assms
  by (simp add: chord_attempt_def diatonic_chord_spec chromatic_chord_spec Let_def add.assoc
        split: option.split)

lemma strict_chord_diatonic:
  assumes "croot mod 12 \<in> set (getScalePitchClasses r t)"
  shows "\<exists>third fifth seventh.
      spec_strict_chord (getScalePitchClasses r t) croot f
        = Some ([croot, third, fifth] @ (if f then [seventh] else []))
      \<and> (third = croot + 3 \<or> third = croot + 4)
      \<and> (fifth = croot + 6 \<or> fifth = croot + 7)
      \<and> (seventh = croot + 10 \<or> seventh = croot + 11)
      \<and> third mod 12 \<in> set (getScalePitchClasses r t)
      \<and> fifth mod 12 \<in> set (getScalePitchClasses r t)
      \<and> seventh mod 12 \<in> set (getScalePitchClasses r t)"
  using scale_stacking[OF assms]
  by (auto simp add: spec_strict_chord_def spec_third_def spec_fifth_def spec_seventh_def)

lemma described_chord_shape:
  assumes "described_chord s mn mx ms" "0 \<le> mn"
  shows "\<exists>croot third fifth sev. ms = [croot, third, fifth] @ sev
      \<and> mn \<le> croot \<and> croot \<le> mx - 11
      \<and> (third = croot + 3 \<or> third = croot + 4)
      \<and> (fifth = croot + 6 \<or> fifth = croot + 7)
      \<and> (sev = [] \<or> sev = [croot + 10] \<or> sev = [croot + 11])
      \<and> (\<forall>m \<in> set ms. isValidNote s m)"
proof -
  from assms(1) obtain croot f where
    c: "mn \<le> croot" "croot \<le> mx - 11" "isValidNote s croot"
    and sh: "if useAccidentals s
            then \<exists>b1 b2. ms = spec_chromatic_chord croot b1 f b2
            else spec_strict_chord (getScalePitchClasses (keyRoot s) (keyType s)) croot f = Some ms"
    unfolding described_chord_def by blast
  have nn: "0 \<le> croot" using c(1) assms(2) by simp
  show ?thesis
  proof (cases "useAccidentals s")
    case True
    with sh obtain b1 b2 where ms: "ms = spec_chromatic_chord croot b1 f b2" by auto
    have "\<forall>m \<in> set ms. isValidNote s m" using True by (simp add: isValidNote_def)
    with c ms show ?thesis
      by (intro exI[of _ croot] exI[of _ "croot + (if b1 then 4 else 3)"] exI[of _ "croot + 7"]
            exI[of _ "if f then [croot + (if b2 then 11 else 10)] else []"])
         (simp add: spec_chromatic_chord_def)
  next
    case False
    let ?dia = "getScalePitchClasses (keyRoot s) (keyType s)"
    from False sh have ms: "spec_strict_chord ?dia croot f = Some ms" by simp
    from c(3) nn False have "croot mod 12 \<in> set ?dia" by (simp add: isValidNote_nonneg)
    from strict_chord_diatonic[OF this, of f] ms obtain third fifth seventh where
      eq: "ms = [croot, third, fifth] @ (if f then [seventh] else [])"
      and t: "third = croot + 3 \<or> third = croot + 4"
      and fi: "fifth = croot + 6 \<or> fifth = croot + 7"
      and se: "seventh = croot + 10 \<or> seventh = croot + 11"
      and d: "third mod 12 \<in> set ?dia" "fifth mod 12 \<in> set ?dia" "seventh mod 12 \<in> set ?dia"
      by auto
    have "0 \<le> third" "0 \<le> fifth" "0 \<le> seventh" using nn t fi se by auto
    then have "isValidNote s third" "isValidNote s fifth" "isValidNote s seventh"
      using d by (simp_all add: isValidNote_nonneg)
    then have "\<forall>m \<in> set ms. isValidNote s m" using c(3) eq by simp
    with c eq t fi se show ?thesis
      by (intro exI[of _ croot] exI[of _ third] exI[of _ fifth]
            exI[of _ "if f then [seventh] else []"]) auto
  qed
qed

lemma chord_attempt_accepts:
  assumes "double_draws rs" "0 \<le> mn" "mn + 22 \<le> mx"
  shows "\<exists>ms p'. chord_attempt s rs mn mx pos = (Some ms, p') \<and> described_chord s mn mx ms
      \<and> length ms
           = (if rs (snd (getValidRandomMidi (isValidNote s) rs mn (mx - 11) pos)) > round_double (7 / 10)
              then 4 else 3)"
proof -
  obtain croot p1 where g: "getValidRandomMidi (isValidNote s) rs mn (mx - 11) pos = (croot, p1)"
    by (cases "getValidRandomMidi (isValidNote s) rs mn (mx - 11) pos")
  have w: "mn + 11 \<le> mx - 11" using assms(3) by simp
  from valid_random_pitch[OF assms(1,2) w, of s pos] g
  have c: "mn \<le> croot" "croot \<le> mx - 11" "isValidNote s croot" by simp_all
  have nn: "0 \<le> croot" using c(1) assms(2) by simp
  note unf = chord_attempt_unfold[OF g nn]
  let ?f = "rs p1 > round_double (7 / 10)"
  show ?thesis
  proof (cases "useAccidentals s")
    case True
    let ?ms = "spec_chromatic_chord croot (rs (p1 + 1) > 1 / 2) ?f (rs (p1 + 2) > 1 / 2)"
    have "described_chord s mn mx ?ms"
      unfolding described_chord_def using c True by auto
    moreover have "length ?ms = (if ?f then 4 else 3)"
      by (simp add: spec_chromatic_chord_def)
    ultimately show ?thesis using unf True g by simp
  next
    case False
    let ?dia = "getScalePitchClasses (keyRoot s) (keyType s)"
    from c(3) nn False have "croot mod 12 \<in> set ?dia" by (simp add: isValidNote_nonneg)
    from strict_chord_diatonic[OF this, of ?f] obtain ms where
      ms: "spec_strict_chord ?dia croot ?f = Some ms" and len: "length ms = (if ?f then 4 else 3)"
      by auto
    have d: "described_chord s mn mx ms"
      unfolding described_chord_def using c False ms by auto
    from described_chord_shape[OF d assms(2)] have "\<not> (\<exists>m \<in> set ms. \<not> isValidNote s m)"
      by blast
    with unf False ms have "chord_attempt s rs mn mx pos = (Some ms, p1 + 1)" by simp
    with d len g show ?thesis by simp
  qed
qed

lemma map_midiToNote_nonneg:
  "\<forall>m \<in> set ms. 0 \<le> m \<Longrightarrow>
     \<exists>ns. map_midiToNote ms r t = Inr ns \<and> map midi ns = ms
       \<and> list_all (\<lambda>n. midiToNote (midi n) r t = Inr n) ns"
proof (induction ms)
  case Nil
  show ?case by simp
next
  case (Cons m ms)
  then have m: "0 \<le> m" and "\<forall>m \<in> set ms. 0 \<le> m" by simp_all
  from Cons.IH[OF this(2)] obtain ns where
    ns: "map_midiToNote ms r t = Inr ns" "map midi ns = ms"
        "list_all (\<lambda>n. midiToNote (midi n) r t = Inr n) ns"
    by blast
  from midiToNote_spelled[OF m, of r t] obtain n where
    n: "midiToNote m r t = Inr n" "midi n = m" by simp
  with ns show ?case by simp
qed

lemma chords_loop_items:
  assumes "double_draws rs" "0 \<le> mn" "mn + 22 \<le> mx"
  shows "nat (6 - i) \<le> fuel \<Longrightarrow> list_all (chord_item s mn mx) items \<Longrightarrow>
     \<exists>items'. chords_loop fuel s rs ids mn mx i items pos = Some (Inr items')
       \<and> length items' = length items + nat (6 - i) \<and> list_all (chord_item s mn mx) items'
       \<and> map (\<lambda>it. Some (map midi (item_notes it))) items'
           = map (\<lambda>it. Some (map midi (item_notes it))) items @ chord_passes (nat (6 - i)) s rs mn mx pos"
proof (induction fuel arbitrary: i items pos)
  case 0
  then show ?case by simp
next
  case (Suc fuel)
  show ?case
  proof (cases "i < 6")
    case False
    with Suc.prems show ?thesis by simp
  next
    case True
    from chord_attempt_accepts[OF assms, of s pos] obtain ms p' where
      att: "chord_attempt s rs mn mx pos = (Some ms, p')" and d: "described_chord s mn mx ms"
      by blast
    from described_chord_shape[OF d assms(2)] assms(2) have "\<forall>m \<in> set ms. 0 \<le> m"
      by auto
    from map_midiToNote_nonneg[OF this, of "keyRoot s" "keyType s"] obtain ns where
      ns: "map_midiToNote ms (keyRoot s) (keyType s) = Inr ns" "map midi ns = ms"
          "list_all (\<lambda>n. midiToNote (midi n) (keyRoot s) (keyType s) = Inr n) ns"
      by blast
    let ?it = "\<lparr>item_id = ids (length items), item_notes = ns, status = pending,
                userInput = None, isBeamGroup = None, beamGroupIndex = None\<rparr>"
    have it: "chord_item s mn mx ?it"
      using d ns by (simp add: chord_item_def)
    have step: "chords_loop (Suc fuel) s rs ids mn mx i items pos
                  = chords_loop fuel s rs ids mn mx (i + 1) (items @ [?it]) p'"
      using True att ns(1) by simp
    have "nat (6 - (i + 1)) \<le> fuel" using Suc.prems(1) True by simp
    moreover have "list_all (chord_item s mn mx) (items @ [?it])"
      using Suc.prems(2) it by simp
    ultimately obtain items' where
      r: "chords_loop fuel s rs ids mn mx (i + 1) (items @ [?it]) p' = Some (Inr items')"
         "length items' = length (items @ [?it]) + nat (6 - (i + 1))"
         "list_all (chord_item s mn mx) items'"
         "map (\<lambda>it. Some (map midi (item_notes it))) items'
            = map (\<lambda>it. Some (map midi (item_notes it))) (items @ [?it])
                @ chord_passes (nat (6 - (i + 1))) s rs mn mx p'"
      using Suc.IH[of "i + 1" "items @ [?it]" p'] by blast
    have "length items' = length items + nat (6 - i)" using r(2) True by simp
    moreover have "nat (6 - i) = Suc (nat (6 - (i + 1)))" using True by simp
    then have "chord_passes (nat (6 - i)) s rs mn mx pos
                 = Some ms # chord_passes (nat (6 - (i + 1))) s rs mn mx p'"
      using att by simp
    then have "map (\<lambda>it. Some (map midi (item_notes it))) items'
           = map (\<lambda>it. Some (map midi (item_notes it))) items @ chord_passes (nat (6 - i)) s rs mn mx pos"
      using r(4) ns(2) by simp
    ultimately show ?thesis using step r(1,3) by simp
  qed
qed

lemma chords_loop_short:
  assumes "double_draws rs" "0 \<le> mn" "mn + 22 \<le> mx"
  shows "fuel < nat (6 - i) \<Longrightarrow> chords_loop fuel s rs ids mn mx i items pos = None"
proof (induction fuel arbitrary: i items pos)
  case 0
  then show ?case by simp
next
  case (Suc fuel)
  then have lt: "i < 6" by simp
  from chord_attempt_accepts[OF assms, of s pos] obtain ms p' where
    att: "chord_attempt s rs mn mx pos = (Some ms, p')" and d: "described_chord s mn mx ms"
    by blast
  from described_chord_shape[OF d assms(2)] assms(2) have "\<forall>m \<in> set ms. 0 \<le> m"
    by auto
  from map_midiToNote_nonneg[OF this, of "keyRoot s" "keyType s"] obtain ns where
    ns: "map_midiToNote ms (keyRoot s) (keyType s) = Inr ns" by blast
  have "fuel < nat (6 - (i + 1))" using Suc.prems by simp
  from Suc.IH[OF this] show ?case using lt att ns by simp
qed

section \<open>Single-note and beam mode: the loops\<close>

declare single_loop.simps [simp del]
declare beam_group_loop.simps [simp del]
declare beams_loop.simps [simp del]

lemma spelled_valid_pitch:
  assumes "double_draws rs" "0 \<le> mn" "mn + 11 \<le> mx"
  shows "\<exists>m p' n. getValidRandomMidi (isValidNote s) rs mn mx pos = (m, p')
      \<and> midiToNote m (keyRoot s) (keyType s) = Inr n \<and> midi n = m
      \<and> mn \<le> m \<and> m \<le> mx \<and> isValidNote s m"
proof -
  obtain m p' where g: "getValidRandomMidi (isValidNote s) rs mn mx pos = (m, p')"
    by (cases "getValidRandomMidi (isValidNote s) rs mn mx pos")
  from valid_random_pitch[OF assms, of s pos] g
  have m: "mn \<le> m" "m \<le> mx" "isValidNote s m" by simp_all
  then have "0 \<le> m" using assms(2) by simp
  from midiToNote_spelled[OF this, of "keyRoot s" "keyType s"] obtain n where
    "midiToNote m (keyRoot s) (keyType s) = Inr n" "midi n = m" by simp
  with g m show ?thesis by simp
qed

lemma single_loop_items:
  assumes "double_draws rs" "0 \<le> mn" "mn + 11 \<le> mx"
  shows "list_all (single_item s mn mx) items \<Longrightarrow>
     \<exists>items'. single_loop s rs ids mn mx i items pos = Inr items'
       \<and> length items' = length items + nat (6 - i) \<and> list_all (single_item s mn mx) items'"
proof (induction k \<equiv> "nat (6 - i)" arbitrary: i items pos)
  case 0
  then have "\<not> i < 6" by simp
  with 0 show ?case by (simp add: single_loop.simps[of _ _ _ _ _ i])
next
  case (Suc k)
  then have lt: "i < 6" and k: "k = nat (6 - (i + 1))" by simp_all
  from spelled_valid_pitch[OF assms, of s pos] obtain m p' n where
    g: "getValidRandomMidi (isValidNote s) rs mn mx pos = (m, p')"
    and n: "midiToNote m (keyRoot s) (keyType s) = Inr n" "midi n = m"
    and m: "mn \<le> m" "m \<le> mx" "isValidNote s m"
    by blast
  let ?it = "\<lparr>item_id = ids (length items), item_notes = [n], status = pending,
              userInput = None, isBeamGroup = None, beamGroupIndex = None\<rparr>"
  have "single_item s mn mx ?it" using n m by (simp add: single_item_def)
  with Suc.prems have "list_all (single_item s mn mx) (items @ [?it])" by simp
  from Suc.hyps(1)[OF k this, of p'] obtain items' where
    r: "single_loop s rs ids mn mx (i + 1) (items @ [?it]) p' = Inr items'"
       "length items' = length (items @ [?it]) + nat (6 - (i + 1))"
       "list_all (single_item s mn mx) items'"
    by blast
  have "single_loop s rs ids mn mx i items pos = Inr items'"
    using lt g n(1) r(1) by (simp add: single_loop.simps[of _ _ _ _ _ i])
  moreover have "length items' = length items + nat (6 - i)" using r(2) lt by simp
  ultimately show ?case using r(3) by simp
qed

lemma beam_group_loop_items:
  assumes "double_draws rs" "0 \<le> mn" "mn + 11 \<le> mx"
  shows "\<exists>new pos'. beam_group_loop s rs ids mn mx g groupSize n items pos = Inr (items @ new, pos')
       \<and> length new = nat (groupSize - n) \<and> list_all (beam_item s mn mx g) new"
proof (induction k \<equiv> "nat (groupSize - n)" arbitrary: n items pos)
  case 0
  then have "\<not> n < groupSize" by simp
  with 0 show ?case by (simp add: beam_group_loop.simps[of _ _ _ _ _ _ _ n])
next
  case (Suc k)
  then have lt: "n < groupSize" and k: "k = nat (groupSize - (n + 1))" by simp_all
  from spelled_valid_pitch[OF assms, of s pos] obtain m p' nt where
    gv: "getValidRandomMidi (isValidNote s) rs mn mx pos = (m, p')"
    and nt: "midiToNote m (keyRoot s) (keyType s) = Inr nt" "midi nt = m"
    and m: "mn \<le> m" "m \<le> mx" "isValidNote s m"
    by blast
  let ?it = "\<lparr>item_id = ids (length items), item_notes = [nt\<lparr>duration := Some Dur_16\<rparr>],
              status = pending, userInput = None, isBeamGroup = Some True,
              beamGroupIndex = Some g\<rparr>"
  have it: "beam_item s mn mx g ?it"
    unfolding beam_item_def using nt m by (intro exI[of _ nt]) simp
  from Suc.hyps(1)[OF k, of "items @ [?it]" p'] obtain new pos' where
    r: "beam_group_loop s rs ids mn mx g groupSize (n + 1) (items @ [?it]) p'
          = Inr ((items @ [?it]) @ new, pos')"
       "length new = nat (groupSize - (n + 1))" "list_all (beam_item s mn mx g) new"
    by blast
  have "beam_group_loop s rs ids mn mx g groupSize n items pos = Inr (items @ (?it # new), pos')"
    using lt gv nt(1) r(1) by (simp add: beam_group_loop.simps[of _ _ _ _ _ _ _ n])
  moreover have "length (?it # new) = nat (groupSize - n)" using r(2) lt by simp
  moreover have "list_all (beam_item s mn mx g) (?it # new)" using it r(3) by simp
  ultimately show ?case by blast
qed

lemma beams_loop_items:
  assumes "double_draws rs" "0 \<le> mn" "mn + 11 \<le> mx"
  shows "\<exists>new sizes. beams_loop s rs ids mn mx numGroups g cbi items pos = Inr (items @ new)
       \<and> length sizes = nat (numGroups - g)
       \<and> list_all (\<lambda>z. 4 \<le> z \<and> z \<le> 6 \<and> (\<exists>p. z = getRandomInt (rs p) 4 6)) sizes
       \<and> beam_groups s mn mx cbi sizes new"
proof (induction k \<equiv> "nat (numGroups - g)" arbitrary: g cbi items pos)
  case 0
  then have "\<not> g < numGroups" by simp
  with 0 show ?case
    by (intro exI[of _ "[]"]) (simp add: beams_loop.simps[of _ _ _ _ _ _ g])
next
  case (Suc k)
  then have lt: "g < numGroups" and k: "k = nat (numGroups - (g + 1))" by simp_all
  let ?z = "getRandomInt (rs pos) 4 6"
  have "unit_double (rs pos)" using assms(1) by (simp add: double_draws_def)
  from getRandomInt_range[OF this, of 4 6] have z: "4 \<le> ?z" "?z \<le> 6" by simp_all
  from beam_group_loop_items[OF assms, of s ids cbi ?z 0 items "pos + 1"] obtain grp pos' where
    grp: "beam_group_loop s rs ids mn mx cbi ?z 0 items (pos + 1) = Inr (items @ grp, pos')"
         "length grp = nat ?z" "list_all (beam_item s mn mx cbi) grp"
    by auto
  from Suc.hyps(1)[OF k, of "cbi + 1" "items @ grp" pos'] obtain new sizes where
    r: "beams_loop s rs ids mn mx numGroups (g + 1) (cbi + 1) (items @ grp) pos'
          = Inr ((items @ grp) @ new)"
       "length sizes = nat (numGroups - (g + 1))"
       "list_all (\<lambda>z. 4 \<le> z \<and> z \<le> 6 \<and> (\<exists>p. z = getRandomInt (rs p) 4 6)) sizes"
       "beam_groups s mn mx (cbi + 1) sizes new"
    by blast
  have "beams_loop s rs ids mn mx numGroups g cbi items pos = Inr (items @ (grp @ new))"
    using lt grp(1) r(1) by (simp add: beams_loop.simps[of _ _ _ _ _ _ g])
  moreover have "length (?z # sizes) = nat (numGroups - g)" using r(2) lt by simp
  moreover have "list_all (\<lambda>z. 4 \<le> z \<and> z \<le> 6 \<and> (\<exists>p. z = getRandomInt (rs p) 4 6)) (?z # sizes)"
    using z r(3) by auto
  moreover have "beam_groups s mn mx cbi (?z # sizes) (grp @ new)"
    using grp(2,3) r(4) by simp
  ultimately show ?case by blast
qed

section \<open>The generated exercise: pitch range and key\<close>

lemma clef_range: "0 \<le> clef_min s" "clef_min s + 22 \<le> clef_max s" "clef_min s + 11 \<le> clef_max s"
  by (simp_all add: clef_min_def clef_max_def TREBLE_MIN_def TREBLE_MAX_def BASS_MIN_def BASS_MAX_def)

lemma clef_range_cases:
  "(clef s = treble \<and> clef_min s = 53 \<and> clef_max s = 88)
     \<or> (clef s = bass \<and> clef_min s = 29 \<and> clef_max s = 67)"
  by (cases "clef s")
     (simp_all add: clef_min_def clef_max_def TREBLE_MIN_def TREBLE_MAX_def BASS_MIN_def BASS_MAX_def)

lemma generateExercise_single:
  assumes "double_draws rs" "mode s = single"
  shows "\<exists>items. generateExercise fuel rs ids s = Some (Inr items) \<and> length items = 6
       \<and> list_all (single_item s (clef_min s) (clef_max s)) items"
proof -
  from single_loop_items[OF assms(1) clef_range(1,3)[of s], where s=s and items="[]" and ids=ids and i=0 and pos=0]
  obtain items where
    "single_loop s rs ids (clef_min s) (clef_max s) 0 [] 0 = Inr items" "length items = 6"
    "list_all (single_item s (clef_min s) (clef_max s)) items"
    by auto
  then show ?thesis using assms(2)
    by (simp add: generateExercise_def clef_min_def clef_max_def)
qed

lemma generateExercise_chords:
  assumes "double_draws rs" "mode s = chords"
  shows "6 \<le> fuel \<Longrightarrow>
      \<exists>items. generateExercise fuel rs ids s = Some (Inr items) \<and> length items = 6
       \<and> list_all (chord_item s (clef_min s) (clef_max s)) items
       \<and> map (\<lambda>it. Some (map midi (item_notes it))) items = chord_passes 6 s rs (clef_min s) (clef_max s) 0"
    and "fuel < 6 \<Longrightarrow> generateExercise fuel rs ids s = None"
proof -
  assume "6 \<le> fuel"
  then have "nat (6 - 0) \<le> fuel" by simp
  from chords_loop_items[OF assms(1) clef_range(1,2)[of s] this, where s=s and items="[]" and ids=ids and pos=0]
  obtain items where
    "chords_loop fuel s rs ids (clef_min s) (clef_max s) 0 [] 0 = Some (Inr items)"
    "length items = 6" "list_all (chord_item s (clef_min s) (clef_max s)) items"
    "map (\<lambda>it. Some (map midi (item_notes it))) items = chord_passes 6 s rs (clef_min s) (clef_max s) 0"
    by auto
  then show "\<exists>items. generateExercise fuel rs ids s = Some (Inr items) \<and> length items = 6
       \<and> list_all (chord_item s (clef_min s) (clef_max s)) items
       \<and> map (\<lambda>it. Some (map midi (item_notes it))) items = chord_passes 6 s rs (clef_min s) (clef_max s) 0"
    using assms(2) by (simp add: generateExercise_def clef_min_def clef_max_def)
next
  assume "fuel < 6"
  then have "fuel < nat (6 - 0)" by simp
  from chords_loop_short[OF assms(1) clef_range(1,2)[of s] this, where s=s and items="[]" and ids=ids and pos=0]
  show "generateExercise fuel rs ids s = None"
    using assms(2) by (simp add: generateExercise_def clef_min_def clef_max_def)
qed

lemma generateExercise_beams:
  assumes "double_draws rs" "mode s = beams"
  shows "\<exists>items sizes. generateExercise fuel rs ids s = Some (Inr items)
       \<and> int (length sizes) = getRandomInt (rs 0) 3 4
       \<and> (length sizes = 3 \<or> length sizes = 4)
       \<and> list_all (\<lambda>z. 4 \<le> z \<and> z \<le> 6 \<and> (\<exists>p. z = getRandomInt (rs p) 4 6)) sizes
       \<and> beam_groups s (clef_min s) (clef_max s) 0 sizes items"
proof -
  let ?ng = "getRandomInt (rs 0) 3 4"
  have "unit_double (rs 0)" using assms(1) by (simp add: double_draws_def)
  from getRandomInt_range[OF this, of 3 4] have ng: "3 \<le> ?ng" "?ng \<le> 4" by simp_all
  from beams_loop_items[OF assms(1) clef_range(1,3)[of s], where s=s and ids=ids and numGroups="?ng" and g=0 and cbi=0 and items="[]" and pos=1]
  obtain items sizes where
    r: "beams_loop s rs ids (clef_min s) (clef_max s) ?ng 0 0 [] 1 = Inr items"
       "length sizes = nat ?ng"
       "list_all (\<lambda>z. 4 \<le> z \<and> z \<le> 6 \<and> (\<exists>p. z = getRandomInt (rs p) 4 6)) sizes"
       "beam_groups s (clef_min s) (clef_max s) 0 sizes items"
    by auto
  have "int (length sizes) = ?ng" "length sizes = 3 \<or> length sizes = 4"
    using r(2) ng by auto
  moreover have "generateExercise fuel rs ids s = Some (Inr items)"
    using r(1) assms(2) by (simp add: generateExercise_def clef_min_def clef_max_def)
  ultimately show ?thesis using r(3,4) by blast
qed

lemma single_item_pitches:
  "single_item s mn mx it \<Longrightarrow>
     list_all (\<lambda>n. mn \<le> midi n \<and> midi n \<le> mx \<and> isValidNote s (midi n)) (item_notes it)"
  by (auto simp add: single_item_def)

lemma beam_item_pitches:
  "beam_item s mn mx g it \<Longrightarrow>
     list_all (\<lambda>n. mn \<le> midi n \<and> midi n \<le> mx \<and> isValidNote s (midi n)) (item_notes it)"
  by (auto simp add: beam_item_def)

lemma chord_item_pitches:
  assumes "chord_item s mn mx it" "0 \<le> mn"
  shows "list_all (\<lambda>n. mn \<le> midi n \<and> midi n \<le> mx \<and> isValidNote s (midi n)) (item_notes it)"
proof -
  from assms(1) have d: "described_chord s mn mx (map midi (item_notes it))"
    by (simp add: chord_item_def)
  from described_chord_shape[OF d assms(2)]
  have "\<forall>m \<in> set (map midi (item_notes it)). mn \<le> m \<and> m \<le> mx \<and> isValidNote s m"
    by (elim exE conjE) (simp only:, auto)
  then show ?thesis by (simp add: list_all_iff)
qed

lemma beam_groups_items:
  assumes "\<And>g it. beam_item s mn mx g it \<Longrightarrow> P it"
  shows "beam_groups s mn mx g zs its \<Longrightarrow> list_all P its"
proof (induction zs arbitrary: g its)
  case Nil
  then show ?case by simp
next
  case (Cons z zs)
  then have "list_all P (take (nat z) its)" "list_all P (drop (nat z) its)"
    using assms by (auto simp add: list_all_iff)
  then have "list_all P (take (nat z) its @ drop (nat z) its)"
    by (simp only: list_all_append)
  then show ?case by simp
qed

lemma generateExercise_pitches:
  assumes "double_draws rs" "6 \<le> fuel"
  shows "\<exists>items. generateExercise fuel rs ids s = Some (Inr items)
      \<and> (mode s \<noteq> beams \<longrightarrow> length items = 6)
      \<and> list_all (\<lambda>it. list_all (\<lambda>n. clef_min s \<le> midi n \<and> midi n \<le> clef_max s
                                      \<and> isValidNote s (midi n)) (item_notes it)) items"
proof (cases "mode s")
  case single
  from generateExercise_single[OF assms(1) single, of fuel ids] obtain items where
    r: "generateExercise fuel rs ids s = Some (Inr items)" "length items = 6"
       "list_all (single_item s (clef_min s) (clef_max s)) items"
    by blast
  from r(3) have "list_all (\<lambda>it. list_all (\<lambda>n. clef_min s \<le> midi n \<and> midi n \<le> clef_max s
                                      \<and> isValidNote s (midi n)) (item_notes it)) items"
    by (rule list.pred_mono_strong) (rule single_item_pitches)
  with r(1,2) show ?thesis by blast
next
  case chords
  from generateExercise_chords(1)[OF assms(1) chords assms(2), of ids] obtain items where
    r: "generateExercise fuel rs ids s = Some (Inr items)" "length items = 6"
       "list_all (chord_item s (clef_min s) (clef_max s)) items"
    by blast
  from r(3) have "list_all (\<lambda>it. list_all (\<lambda>n. clef_min s \<le> midi n \<and> midi n \<le> clef_max s
                                      \<and> isValidNote s (midi n)) (item_notes it)) items"
    by (rule list.pred_mono_strong) (rule chord_item_pitches[OF _ clef_range(1)])
  with r(1,2) show ?thesis by blast
next
  case beams
  from generateExercise_beams[OF assms(1) beams, of fuel ids] obtain items sizes where
    r: "generateExercise fuel rs ids s = Some (Inr items)"
       "beam_groups s (clef_min s) (clef_max s) 0 sizes items"
    by blast
  from r(2) have "list_all (\<lambda>it. list_all (\<lambda>n. clef_min s \<le> midi n \<and> midi n \<le> clef_max s
                                      \<and> isValidNote s (midi n)) (item_notes it)) items"
    by (rule beam_groups_items[rotated]) (rule beam_item_pitches)
  with r(1) beams show ?thesis by auto
qed

text \<open>Claim C2. For every \<open>GameSettings\<close> and every sequence of draws, \<open>generateExercise\<close> returns
  items whose pitches all lie in [53, 88] for the treble clef and in [29, 67] for the bass clef,
  and whose pitch classes, when \<open>useAccidentals\<close> is false, are all among the seven distinct
  diatonic classes of the key. Single and chord mode return 6 items. For treble, D major, no
  accidentals, single mode there are exactly 6 items, with pitch classes in
  {2, 4, 6, 7, 9, 11, 1} and pitches in [53, 88].\<close>

theorem generation_postcondition:
  assumes "double_draws rs" and "6 \<le> fuel"
  shows "\<exists>items. generateExercise fuel rs ids s = Some (Inr items)
    \<and> (\<forall>it \<in> set items. \<forall>n \<in> set (item_notes it).
          (clef s = treble \<longrightarrow> 53 \<le> midi n \<and> midi n \<le> 88)
          \<and> (clef s = bass \<longrightarrow> 29 \<le> midi n \<and> midi n \<le> 67)
          \<and> (\<not> useAccidentals s \<longrightarrow>
                midi n mod 12 \<in> set (getScalePitchClasses (keyRoot s) (keyType s))))
    \<and> (mode s \<noteq> beams \<longrightarrow> length items = 6)
    \<and> length (getScalePitchClasses (keyRoot s) (keyType s)) = 7
    \<and> distinct (getScalePitchClasses (keyRoot s) (keyType s))
    \<and> (clef s = treble \<and> keyRoot s = Key_D \<and> keyType s = major \<and> \<not> useAccidentals s
          \<and> mode s = single \<longrightarrow>
        length items = 6
        \<and> (\<forall>it \<in> set items. \<forall>n \<in> set (item_notes it).
              midi n mod 12 \<in> {2, 4, 6, 7, 9, 11, 1} \<and> 53 \<le> midi n \<and> midi n \<le> 88))"
proof -
  from generateExercise_pitches[OF assms, of ids s] obtain items where
    gen: "generateExercise fuel rs ids s = Some (Inr items)"
    and len: "mode s \<noteq> beams \<longrightarrow> length items = 6"
    and all: "list_all (\<lambda>it. list_all (\<lambda>n. clef_min s \<le> midi n \<and> midi n \<le> clef_max s
                                      \<and> isValidNote s (midi n)) (item_notes it)) items"
    by blast
  have pitch: "clef_min s \<le> midi n \<and> midi n \<le> clef_max s \<and> isValidNote s (midi n)"
    if "it \<in> set items" "n \<in> set (item_notes it)" for it n
    using all that by (simp add: list_all_iff)
  have range: "(clef s = treble \<longrightarrow> 53 \<le> midi n \<and> midi n \<le> 88)
          \<and> (clef s = bass \<longrightarrow> 29 \<le> midi n \<and> midi n \<le> 67)"
    if "it \<in> set items" "n \<in> set (item_notes it)" for it n
    using pitch[OF that] clef_range_cases[of s] by auto
  have dia: "midi n mod 12 \<in> set (getScalePitchClasses (keyRoot s) (keyType s))"
    if "it \<in> set items" "n \<in> set (item_notes it)" "\<not> useAccidentals s" for it n
  proof -
    from pitch[OF that(1,2)] clef_range(1)[of s] have "0 \<le> midi n" "isValidNote s (midi n)"
      by simp_all
    then show ?thesis using that(3) by (simp add: isValidNote_nonneg)
  qed
  have ex: "length items = 6
        \<and> (\<forall>it \<in> set items. \<forall>n \<in> set (item_notes it).
              midi n mod 12 \<in> {2, 4, 6, 7, 9, 11, 1} \<and> 53 \<le> midi n \<and> midi n \<le> 88)"
    if "clef s = treble \<and> keyRoot s = Key_D \<and> keyType s = major \<and> \<not> useAccidentals s
          \<and> mode s = single"
  proof -
    have "set (getScalePitchClasses (keyRoot s) (keyType s)) = {2, 4, 6, 7, 9, 11, 1}"
      using that by (simp add: scale_D_major)
    then show ?thesis using that len range dia by auto
  qed
  from scale_shape[of "keyRoot s" "keyType s"]
  have "length (getScalePitchClasses (keyRoot s) (keyType s)) = 7"
    "distinct (getScalePitchClasses (keyRoot s) (keyType s))"
    by simp_all
  with gen len range dia ex show ?thesis by blast
qed

theorem generation_postcondition_witness:
  "double_draws (cycle_draws draws_a) \<and> (6::nat) \<le> 6
   \<and> (\<exists>items. generateExercise 6 (cycle_draws draws_a) (\<lambda>k. [])
          \<lparr>clef = treble, useAccidentals = False, mode = single, keyRoot = Key_D,
            keyType = major\<rparr> = Some (Inr items)
        \<and> map (map midi \<circ> item_notes) items = [[78], [71], [78], [71], [78], [71]])"
proof -
  let ?s = "\<lparr>clef = treble, useAccidentals = False, mode = single, keyRoot = Key_D,
             keyType = major\<rparr>"
  note u = double_draws_a
  have ev: "map_option (map_sum id (map (map midi \<circ> item_notes)))
              (generateExercise 6 (cycle_draws draws_a) (\<lambda>k. []) ?s)
            = Some (Inr [[78], [71], [78], [71], [78], [71]])"
    by code_simp
  from generation_postcondition[OF u order_refl, of "\<lambda>k. []" ?s] obtain items where
    "generateExercise 6 (cycle_draws draws_a) (\<lambda>k. []) ?s = Some (Inr items)" by blast
  with ev u show ?thesis by simp
qed

section \<open>Termination\<close>

subsection \<open>Draws in the unit interval\<close>

lemma double_draws_unit: "double_draws rs \<Longrightarrow> unit_draws rs"
  by (simp add: double_draws_def unit_draws_def unit_double_def)

lemma getRandomInt_lower:
  assumes "0 \<le> r" "mn \<le> mx"
  shows "mn \<le> getRandomInt r mn mx"
proof -
  have "0 \<le> r * of_int (mx - mn + 1)" using assms by simp
  from round_double_nonneg[OF this]
  have "0 \<le> \<lfloor>round_double (r * of_int (mx - mn + 1))\<rfloor>" by simp
  then show ?thesis by (simp add: getRandomInt_def)
qed

lemma getValidRandomMidi_lower:
  assumes "unit_draws rs" "mn \<le> mx"
  shows "mn \<le> fst (getValidRandomMidi valid rs mn mx pos)"
proof (cases rule: getValidRandomMidi_cases[where valid=valid and rs=rs and mn=mn and mx=mx and pos=pos])
  case (hit k)
  have "0 \<le> rs (pos + k)" using assms(1) by (simp add: unit_draws_def)
  from getRandomInt_lower[OF this assms(2)] hit(2) show ?thesis by simp
next
  case (scan m)
  then show ?thesis by simp
next
  case none
  then show ?thesis by simp
qed

lemma valid_random_pitch_lower:
  assumes "unit_draws rs" "0 \<le> mn" "mn + 11 \<le> mx"
  shows "0 \<le> fst (getValidRandomMidi (isValidNote s) rs mn mx pos)"
    and "isValidNote s (fst (getValidRandomMidi (isValidNote s) rs mn mx pos))"
proof -
  have le: "mn \<le> mx" using assms(3) by simp
  from getValidRandomMidi_lower[OF assms(1) le, of "isValidNote s" pos] assms(2)
  show "0 \<le> fst (getValidRandomMidi (isValidNote s) rs mn mx pos)" by simp
  from valid_pitch_exists[OF assms(2,3)] obtain i where
    "mn \<le> i" "i \<le> mx" "isValidNote s i" by blast
  then show "isValidNote s (fst (getValidRandomMidi (isValidNote s) rs mn mx pos))"
    by (rule getValidRandomMidi_valid)
qed

lemma chord_attempt_accepts_lower:
  assumes "unit_draws rs" "0 \<le> mn" "mn + 22 \<le> mx"
  shows "\<exists>ms p'. chord_attempt s rs mn mx pos = (Some ms, p')
      \<and> (\<forall>m \<in> set ms. 0 \<le> m \<and> isValidNote s m)
      \<and> length ms
           = (if rs (snd (getValidRandomMidi (isValidNote s) rs mn (mx - 11) pos))
                   > round_double (7 / 10)
              then 4 else 3)"
proof -
  obtain croot p1 where g: "getValidRandomMidi (isValidNote s) rs mn (mx - 11) pos = (croot, p1)"
    by (cases "getValidRandomMidi (isValidNote s) rs mn (mx - 11) pos")
  have w: "mn + 11 \<le> mx - 11" using assms(3) by simp
  from valid_random_pitch_lower[OF assms(1,2) w, of s pos] g
  have nn: "0 \<le> croot" and v: "isValidNote s croot" by simp_all
  note unf = chord_attempt_unfold[OF g nn]
  let ?f = "rs p1 > round_double (7 / 10)"
  show ?thesis
  proof (cases "useAccidentals s")
    case True
    let ?ms = "spec_chromatic_chord croot (rs (p1 + 1) > 1 / 2) ?f (rs (p1 + 2) > 1 / 2)"
    have "\<forall>m \<in> set ?ms. 0 \<le> m \<and> isValidNote s m"
      using nn True by (simp add: spec_chromatic_chord_def isValidNote_def)
    moreover have "length ?ms = (if ?f then 4 else 3)"
      by (simp add: spec_chromatic_chord_def)
    ultimately show ?thesis using unf True g by simp
  next
    case False
    let ?dia = "getScalePitchClasses (keyRoot s) (keyType s)"
    from v nn False have "croot mod 12 \<in> set ?dia" by (simp add: isValidNote_nonneg)
    from strict_chord_diatonic[OF this, of ?f] obtain third fifth seventh where
      eq: "spec_strict_chord ?dia croot ?f
             = Some ([croot, third, fifth] @ (if ?f then [seventh] else []))"
      and t: "third = croot + 3 \<or> third = croot + 4"
      and fi: "fifth = croot + 6 \<or> fifth = croot + 7"
      and se: "seventh = croot + 10 \<or> seventh = croot + 11"
      and d: "third mod 12 \<in> set ?dia" "fifth mod 12 \<in> set ?dia" "seventh mod 12 \<in> set ?dia"
      by blast
    let ?ms = "[croot, third, fifth] @ (if ?f then [seventh] else [])"
    have ps: "0 \<le> third" "0 \<le> fifth" "0 \<le> seventh" using nn t fi se by auto
    then have "isValidNote s third" "isValidNote s fifth" "isValidNote s seventh"
      using d by (simp_all add: isValidNote_nonneg)
    with v nn ps have all: "\<forall>m \<in> set ?ms. 0 \<le> m \<and> isValidNote s m" by simp
    then have "\<not> (\<exists>m \<in> set ?ms. \<not> isValidNote s m)" by blast
    with unf False eq have att: "chord_attempt s rs mn mx pos = (Some ?ms, p1 + 1)" by simp
    have len: "length ?ms = (if ?f then 4 else 3)" by simp
    from att all len g show ?thesis by (intro exI[of _ ?ms] exI[of _ "p1 + 1"]) simp
  qed
qed

lemma chords_loop_total:
  assumes "unit_draws rs" "0 \<le> mn" "mn + 22 \<le> mx"
  shows "nat (6 - i) \<le> fuel \<Longrightarrow>
     \<exists>items'. chords_loop fuel s rs ids mn mx i items pos = Some (Inr items')
       \<and> length items' = length items + nat (6 - i)
       \<and> map (\<lambda>it. Some (map midi (item_notes it))) items' = map (\<lambda>it. Some (map midi (item_notes it))) items @ chord_passes (nat (6 - i)) s rs mn mx pos"
proof (induction fuel arbitrary: i items pos)
  case 0
  then show ?case by simp
next
  case (Suc fuel)
  show ?case
  proof (cases "i < 6")
    case False
    with Suc.prems show ?thesis by simp
  next
    case True
    from chord_attempt_accepts_lower[OF assms, of s pos] obtain ms p' where
      att: "chord_attempt s rs mn mx pos = (Some ms, p')" and nn: "\<forall>m \<in> set ms. 0 \<le> m"
      by blast
    from map_midiToNote_nonneg[OF nn, of "keyRoot s" "keyType s"] obtain ns where
      ns: "map_midiToNote ms (keyRoot s) (keyType s) = Inr ns" "map midi ns = ms"
      by blast
    let ?it = "\<lparr>item_id = ids (length items), item_notes = ns, status = pending,
                userInput = None, isBeamGroup = None, beamGroupIndex = None\<rparr>"
    have step: "chords_loop (Suc fuel) s rs ids mn mx i items pos
                  = chords_loop fuel s rs ids mn mx (i + 1) (items @ [?it]) p'"
      using True att ns(1) by simp
    have "nat (6 - (i + 1)) \<le> fuel" using Suc.prems True by simp
    from Suc.IH[OF this, of "items @ [?it]" p'] obtain items' where
      r: "chords_loop fuel s rs ids mn mx (i + 1) (items @ [?it]) p' = Some (Inr items')"
         "length items' = length (items @ [?it]) + nat (6 - (i + 1))"
         "map (\<lambda>it. Some (map midi (item_notes it))) items' = map (\<lambda>it. Some (map midi (item_notes it))) (items @ [?it]) @ chord_passes (nat (6 - (i + 1))) s rs mn mx p'"
      by blast
    have "length items' = length items + nat (6 - i)" using r(2) True by simp
    moreover have "nat (6 - i) = Suc (nat (6 - (i + 1)))" using True by simp
    then have "chord_passes (nat (6 - i)) s rs mn mx pos
                 = Some ms # chord_passes (nat (6 - (i + 1))) s rs mn mx p'"
      using att by simp
    then have "map (\<lambda>it. Some (map midi (item_notes it))) items' = map (\<lambda>it. Some (map midi (item_notes it))) items @ chord_passes (nat (6 - i)) s rs mn mx pos"
      using r(3) ns(2) by simp
    ultimately show ?thesis using step r(1) by simp
  qed
qed

lemma chords_loop_short_lower:
  assumes "unit_draws rs" "0 \<le> mn" "mn + 22 \<le> mx"
  shows "fuel < nat (6 - i) \<Longrightarrow> chords_loop fuel s rs ids mn mx i items pos = None"
proof (induction fuel arbitrary: i items pos)
  case 0
  then show ?case by simp
next
  case (Suc fuel)
  then have lt: "i < 6" by simp
  from chord_attempt_accepts_lower[OF assms, of s pos] obtain ms p' where
    att: "chord_attempt s rs mn mx pos = (Some ms, p')" and nn: "\<forall>m \<in> set ms. 0 \<le> m"
    by blast
  from map_midiToNote_nonneg[OF nn, of "keyRoot s" "keyType s"] obtain ns where
    ns: "map_midiToNote ms (keyRoot s) (keyType s) = Inr ns" by blast
  have "fuel < nat (6 - (i + 1))" using Suc.prems by simp
  from Suc.IH[OF this] show ?case using lt att ns by simp
qed

lemma spelled_valid_pitch_lower:
  assumes "unit_draws rs" "0 \<le> mn" "mn + 11 \<le> mx"
  shows "\<exists>m p' n. getValidRandomMidi (isValidNote s) rs mn mx pos = (m, p')
      \<and> midiToNote m (keyRoot s) (keyType s) = Inr n"
proof -
  obtain m p' where g: "getValidRandomMidi (isValidNote s) rs mn mx pos = (m, p')"
    by (cases "getValidRandomMidi (isValidNote s) rs mn mx pos")
  from valid_random_pitch_lower(1)[OF assms, of s pos] g have "0 \<le> m" by simp
  from midiToNote_spelled[OF this, of "keyRoot s" "keyType s"] g show ?thesis by simp
qed

lemma single_loop_total:
  assumes "unit_draws rs" "0 \<le> mn" "mn + 11 \<le> mx"
  shows "\<exists>items'. single_loop s rs ids mn mx i items pos = Inr items'"
proof (induction k \<equiv> "nat (6 - i)" arbitrary: i items pos)
  case 0
  then have "\<not> i < 6" by simp
  then show ?case by (simp add: single_loop.simps[of _ _ _ _ _ i])
next
  case (Suc k)
  then have lt: "i < 6" and k: "k = nat (6 - (i + 1))" by simp_all
  from spelled_valid_pitch_lower[OF assms, of s pos] obtain m p' n where
    g: "getValidRandomMidi (isValidNote s) rs mn mx pos = (m, p')"
    and n: "midiToNote m (keyRoot s) (keyType s) = Inr n"
    by blast
  let ?it = "\<lparr>item_id = ids (length items), item_notes = [n], status = pending,
              userInput = None, isBeamGroup = None, beamGroupIndex = None\<rparr>"
  from Suc.hyps(1)[OF k, of "items @ [?it]" p'] obtain items' where
    "single_loop s rs ids mn mx (i + 1) (items @ [?it]) p' = Inr items'" by blast
  then have "single_loop s rs ids mn mx i items pos = Inr items'"
    using lt g n by (simp add: single_loop.simps[of _ _ _ _ _ i])
  then show ?case by blast
qed

lemma beam_group_loop_total:
  assumes "unit_draws rs" "0 \<le> mn" "mn + 11 \<le> mx"
  shows "\<exists>items' pos'. beam_group_loop s rs ids mn mx g groupSize n items pos = Inr (items', pos')"
proof (induction k \<equiv> "nat (groupSize - n)" arbitrary: n items pos)
  case 0
  then have "\<not> n < groupSize" by simp
  then show ?case by (simp add: beam_group_loop.simps[of _ _ _ _ _ _ _ n])
next
  case (Suc k)
  then have lt: "n < groupSize" and k: "k = nat (groupSize - (n + 1))" by simp_all
  from spelled_valid_pitch_lower[OF assms, of s pos] obtain m p' nt where
    gv: "getValidRandomMidi (isValidNote s) rs mn mx pos = (m, p')"
    and nt: "midiToNote m (keyRoot s) (keyType s) = Inr nt"
    by blast
  let ?it = "\<lparr>item_id = ids (length items), item_notes = [nt\<lparr>duration := Some Dur_16\<rparr>],
              status = pending, userInput = None, isBeamGroup = Some True,
              beamGroupIndex = Some g\<rparr>"
  from Suc.hyps(1)[OF k, of "items @ [?it]" p'] obtain items' pos' where
    "beam_group_loop s rs ids mn mx g groupSize (n + 1) (items @ [?it]) p' = Inr (items', pos')"
    by blast
  then have "beam_group_loop s rs ids mn mx g groupSize n items pos = Inr (items', pos')"
    using lt gv nt by (simp add: beam_group_loop.simps[of _ _ _ _ _ _ _ n])
  then show ?case by blast
qed

lemma beams_loop_total:
  assumes "unit_draws rs" "0 \<le> mn" "mn + 11 \<le> mx"
  shows "\<exists>items'. beams_loop s rs ids mn mx numGroups g cbi items pos = Inr items'"
proof (induction k \<equiv> "nat (numGroups - g)" arbitrary: g cbi items pos)
  case 0
  then have "\<not> g < numGroups" by simp
  then show ?case by (simp add: beams_loop.simps[of _ _ _ _ _ _ g])
next
  case (Suc k)
  then have lt: "g < numGroups" and k: "k = nat (numGroups - (g + 1))" by simp_all
  let ?z = "getRandomInt (rs pos) 4 6"
  from beam_group_loop_total[OF assms, of s ids cbi ?z 0 items "pos + 1"] obtain grp pos' where
    grp: "beam_group_loop s rs ids mn mx cbi ?z 0 items (pos + 1) = Inr (grp, pos')"
    by blast
  from Suc.hyps(1)[OF k, of "cbi + 1" grp pos'] obtain items' where
    "beams_loop s rs ids mn mx numGroups (g + 1) (cbi + 1) grp pos' = Inr items'" by blast
  then have "beams_loop s rs ids mn mx numGroups g cbi items pos = Inr items'"
    using lt grp by (simp add: beams_loop.simps[of _ _ _ _ _ _ g])
  then show ?case by blast
qed

lemma generateExercise_total:
  assumes "unit_draws rs"
  shows "\<exists>items. generateExercise 6 rs ids s = Some (Inr items)
      \<and> (mode s = chords \<longrightarrow>
           length items = 6
           \<and> map (\<lambda>it. Some (map midi (item_notes it))) items = chord_passes 6 s rs (clef_min s) (clef_max s) 0)"
proof (cases "mode s")
  case single
  from single_loop_total[OF assms clef_range(1,3)[of s], where s=s and ids=ids and i=0
         and items="[]" and pos=0]
  obtain items where "single_loop s rs ids (clef_min s) (clef_max s) 0 [] 0 = Inr items"
    by blast
  with single show ?thesis by (simp add: generateExercise_def clef_min_def clef_max_def)
next
  case chords
  have "nat (6 - 0) \<le> (6::nat)" by simp
  from chords_loop_total[OF assms clef_range(1,2)[of s] this, where s=s and ids=ids
         and items="[]" and pos=0]
  obtain items where
    "chords_loop 6 s rs ids (clef_min s) (clef_max s) 0 [] 0 = Some (Inr items)"
    "length items = 6"
    "map (\<lambda>it. Some (map midi (item_notes it))) items = chord_passes 6 s rs (clef_min s) (clef_max s) 0"
    by auto
  with chords show ?thesis by (simp add: generateExercise_def clef_min_def clef_max_def)
next
  case beams
  from beams_loop_total[OF assms clef_range(1,3)[of s], where s=s and ids=ids
         and numGroups="getRandomInt (rs 0) 3 4" and g=0 and cbi=0 and items="[]" and pos=1]
  obtain items where
    "beams_loop s rs ids (clef_min s) (clef_max s) (getRandomInt (rs 0) 3 4) 0 0 [] 1 = Inr items"
    by blast
  with beams show ?thesis by (simp add: generateExercise_def clef_min_def clef_max_def)
qed

lemma generateExercise_short:
  assumes "unit_draws rs" "mode s = chords" "fuel < 6"
  shows "generateExercise fuel rs ids s = None"
proof -
  have "fuel < nat (6 - 0)" using assms(3) by simp
  from chords_loop_short_lower[OF assms(1) clef_range(1,2)[of s] this, where s=s and ids=ids
         and items="[]" and pos=0]
  show ?thesis using assms(2) by (simp add: generateExercise_def clef_min_def clef_max_def)
qed

subsection \<open>The generator returns\<close>

lemma chords_loop_mono:
  "chords_loop fuel s rs ids mn mx i items pos = Some r \<Longrightarrow> fuel \<le> fuel' \<Longrightarrow>
     chords_loop fuel' s rs ids mn mx i items pos = Some r"
proof (induction fuel arbitrary: fuel' i items pos)
  case 0
  then show ?case by (cases fuel') (simp_all split: if_splits)
next
  case (Suc fuel)
  from Suc.prems(2) obtain f where f: "fuel' = Suc f" "fuel \<le> f" by (cases fuel') simp_all
  show ?case
  proof (cases "i < 6")
    case False
    with Suc.prems(1) f show ?thesis by simp
  next
    case True
    obtain res p' where att: "chord_attempt s rs mn mx pos = (res, p')"
      by (cases "chord_attempt s rs mn mx pos")
    show ?thesis
    proof (cases res)
      case None
      with Suc.prems(1) True att have "chords_loop fuel s rs ids mn mx (i - 1 + 1) items p' = Some r"
        by simp
      from Suc.IH[OF this f(2)] show ?thesis using True att None f(1) by simp
    next
      case (Some ms)
      show ?thesis
      proof (cases "map_midiToNote ms (keyRoot s) (keyType s)")
        case (Inl e)
        with Suc.prems(1) True att Some f(1) show ?thesis by simp
      next
        case (Inr ns)
        let ?it = "\<lparr>item_id = ids (length items), item_notes = ns, status = pending,
                    userInput = None, isBeamGroup = None, beamGroupIndex = None\<rparr>"
        from Suc.prems(1) True att Some Inr
        have "chords_loop fuel s rs ids mn mx (i + 1) (items @ [?it]) p' = Some r" by simp
        from Suc.IH[OF this f(2)] show ?thesis using True att Some Inr f(1) by simp
      qed
    qed
  qed
qed

lemma generateExercise_mono:
  "generateExercise fuel rs ids s = Some r \<Longrightarrow> fuel \<le> fuel' \<Longrightarrow>
     generateExercise fuel' rs ids s = Some r"
proof (cases "mode s = chords")
  case True
  assume a: "generateExercise fuel rs ids s = Some r" "fuel \<le> fuel'"
  from a(1) True
  have "chords_loop fuel s rs ids (if clef s = treble then TREBLE_MIN else BASS_MIN)
          (if clef s = treble then TREBLE_MAX else BASS_MAX) 0 [] 0 = Some r"
    by (simp add: generateExercise_def)
  from chords_loop_mono[OF this a(2)] True show ?thesis
    by (simp add: generateExercise_def)
next
  case False
  assume a: "generateExercise fuel rs ids s = Some r"
  have "generateExercise fuel' rs ids s = generateExercise fuel rs ids s"
    using False by (simp add: generateExercise_def)
  with a show ?thesis by simp
qed

lemma getValidRandomMidi_draws:
  "pos < snd (getValidRandomMidi valid rs mn mx pos)
     \<and> snd (getValidRandomMidi valid rs mn mx pos) \<le> pos + 100"
  by (cases rule: getValidRandomMidi_cases[where valid=valid and rs=rs and mn=mn and mx=mx and pos=pos])
     simp_all

lemma scale_third:
  assumes "0 \<le> x" "js_rem x 12 \<in> set (getScalePitchClasses r t)"
  shows "(js_rem (x + 3) 12 \<in> set (getScalePitchClasses r t))
           \<noteq> (js_rem (x + 4) 12 \<in> set (getScalePitchClasses r t))"
    and "js_rem (x + 7) 12 \<in> set (getScalePitchClasses r t)
           \<or> js_rem (x + 6) 12 \<in> set (getScalePitchClasses r t)"
    and "js_rem (x + 11) 12 \<in> set (getScalePitchClasses r t)
           \<or> js_rem (x + 10) 12 \<in> set (getScalePitchClasses r t)
           \<or> js_rem (x + 9) 12 \<in> set (getScalePitchClasses r t)"
proof -
  from assms have d: "x mod 12 \<in> set (getScalePitchClasses r t)" by (simp add: js_rem_nonneg)
  have r: "js_rem (x + k) 12 = (x + k) mod 12" if "0 \<le> k" for k
    using assms(1) that by (intro js_rem_nonneg) simp
  show "(js_rem (x + 3) 12 \<in> set (getScalePitchClasses r t))
           \<noteq> (js_rem (x + 4) 12 \<in> set (getScalePitchClasses r t))"
    using scale_stacking(1)[OF d] by (simp add: r)
  show "js_rem (x + 7) 12 \<in> set (getScalePitchClasses r t)
           \<or> js_rem (x + 6) 12 \<in> set (getScalePitchClasses r t)"
    using scale_stacking(2)[OF d] by (simp add: r)
  show "js_rem (x + 11) 12 \<in> set (getScalePitchClasses r t)
           \<or> js_rem (x + 10) 12 \<in> set (getScalePitchClasses r t)
           \<or> js_rem (x + 9) 12 \<in> set (getScalePitchClasses r t)"
    using scale_stacking(3)[OF d] by (auto simp add: r)
qed

text \<open>Claim C3. \<open>generateExercise\<close> terminates for every \<open>GameSettings\<close> and every sequence of
  draws: six passes through the chord loop suffice (and more fuel changes nothing), while fewer
  than six do not, so the chord loop makes exactly 6 passes, all accepted: no pass ends in a
  retry. \<open>getValidRandomMidi\<close> makes at most 100 draws before its one linear scan (both are
  total functions). From a diatonic root, +3 or +4 is diatonic in every major and natural-minor
  key.\<close>

theorem generateExercise_terminates:
  assumes "unit_draws rs"
  shows "(\<exists>items. generateExercise 6 rs ids s = Some (Inr items)
            \<and> (\<forall>fuel. 6 \<le> fuel \<longrightarrow> generateExercise fuel rs ids s = Some (Inr items))
            \<and> (mode s = chords \<longrightarrow> length items = 6))
    \<and> (mode s = chords \<longrightarrow> (\<forall>fuel. fuel < 6 \<longrightarrow> generateExercise fuel rs ids s = None))
    \<and> (\<forall>pos. fst (chord_attempt s rs (clef_min s) (clef_max s) pos) \<noteq> None)
    \<and> (\<forall>valid mn mx pos. snd (getValidRandomMidi valid rs mn mx pos) \<le> pos + 100)
    \<and> (\<forall>r t x. 0 \<le> x \<and> js_rem x 12 \<in> set (getScalePitchClasses r t) \<longrightarrow>
          js_rem (x + 3) 12 \<in> set (getScalePitchClasses r t)
          \<or> js_rem (x + 4) 12 \<in> set (getScalePitchClasses r t))"
proof -
  from generateExercise_total[OF assms, of ids s] obtain items where
    gen: "generateExercise 6 rs ids s = Some (Inr items)"
    and len: "mode s = chords \<longrightarrow> length items = 6"
    by blast
  have more: "\<forall>fuel. 6 \<le> fuel \<longrightarrow> generateExercise fuel rs ids s = Some (Inr items)"
    using generateExercise_mono[OF gen] by blast
  have short: "mode s = chords \<longrightarrow> (\<forall>fuel. fuel < 6 \<longrightarrow> generateExercise fuel rs ids s = None)"
    using generateExercise_short[OF assms] by blast
  have att: "\<forall>pos. fst (chord_attempt s rs (clef_min s) (clef_max s) pos) \<noteq> None"
  proof
    fix pos
    from chord_attempt_accepts_lower[OF assms clef_range(1,2)[of s], of s pos]
    show "fst (chord_attempt s rs (clef_min s) (clef_max s) pos) \<noteq> None" by auto
  qed
  have draws: "\<forall>valid mn mx pos. snd (getValidRandomMidi valid rs mn mx pos) \<le> pos + 100"
    using getValidRandomMidi_draws by blast
  have third: "\<forall>r t x. 0 \<le> x \<and> js_rem x 12 \<in> set (getScalePitchClasses r t) \<longrightarrow>
          js_rem (x + 3) 12 \<in> set (getScalePitchClasses r t)
          \<or> js_rem (x + 4) 12 \<in> set (getScalePitchClasses r t)"
    using scale_third(1) by blast
  from gen more len short att draws third show ?thesis by auto
qed

theorem generateExercise_terminates_witness:
  "unit_draws (cycle_draws draws_a)
   \<and> map_option (map_sum id (map (map midi \<circ> item_notes)))
        (generateExercise 6 (cycle_draws draws_a) (\<lambda>k. [])
           \<lparr>clef = treble, useAccidentals = False, mode = chords, keyRoot = Key_D,
             keyType = major\<rparr>)
       = Some (Inr [[74, 78, 81], [71, 74, 78], [74, 78, 81], [71, 74, 78], [74, 78, 81],
                    [71, 74, 78]])
   \<and> generateExercise 5 (cycle_draws draws_a) (\<lambda>k. [])
           \<lparr>clef = treble, useAccidentals = False, mode = chords, keyRoot = Key_D,
             keyType = major\<rparr> = None"
proof -
  let ?s = "\<lparr>clef = treble, useAccidentals = False, mode = chords, keyRoot = Key_D,
             keyType = major\<rparr>"
  note u = double_draws_unit[OF double_draws_a]
  have ev: "map_option (map_sum id (map (map midi \<circ> item_notes)))
        (generateExercise 6 (cycle_draws draws_a) (\<lambda>k. []) ?s)
       = Some (Inr [[74, 78, 81], [71, 74, 78], [74, 78, 81], [71, 74, 78], [74, 78, 81],
                    [71, 74, 78]])"
    by code_simp
  from generateExercise_terminates[OF u, of "\<lambda>k. []" ?s]
  have "generateExercise 5 (cycle_draws draws_a) (\<lambda>k. []) ?s = None" by simp
  with u ev show ?thesis by simp
qed

section \<open>Strict chords are complete\<close>

lemma diatonic_chord_complete:
  assumes "0 \<le> x" "js_rem x 12 \<in> set (getScalePitchClasses r t)"
  shows "\<exists>ms. diatonic_chord (getScalePitchClasses r t) x f = Some ms
      \<and> length ms = (if f then 4 else 3)
      \<and> (\<forall>m \<in> set ms. js_rem m 12 \<in> set (getScalePitchClasses r t))"
proof -
  from assms have d: "x mod 12 \<in> set (getScalePitchClasses r t)" by (simp add: js_rem_nonneg)
  from strict_chord_diatonic[OF d, of f] obtain third fifth seventh where
    eq: "spec_strict_chord (getScalePitchClasses r t) x f
           = Some ([x, third, fifth] @ (if f then [seventh] else []))"
    and t: "third = x + 3 \<or> third = x + 4"
    and fi: "fifth = x + 6 \<or> fifth = x + 7"
    and se: "seventh = x + 10 \<or> seventh = x + 11"
    and dd: "third mod 12 \<in> set (getScalePitchClasses r t)"
      "fifth mod 12 \<in> set (getScalePitchClasses r t)"
      "seventh mod 12 \<in> set (getScalePitchClasses r t)"
    by blast
  have "0 \<le> third" "0 \<le> fifth" "0 \<le> seventh" using assms(1) t fi se by auto
  then have "js_rem third 12 \<in> set (getScalePitchClasses r t)"
    "js_rem fifth 12 \<in> set (getScalePitchClasses r t)"
    "js_rem seventh 12 \<in> set (getScalePitchClasses r t)"
    using dd by (simp_all add: js_rem_nonneg)
  with assms(2) eq show ?thesis
    by (simp add: diatonic_chord_spec[OF assms(1)])
qed

lemma chord_passes_mem:
  "c \<in> set (chord_passes k s rs mn mx pos) \<Longrightarrow> \<exists>p. fst (chord_attempt s rs mn mx p) = c"
proof (induction k arbitrary: pos)
  case 0
  then show ?case by simp
next
  case (Suc k)
  obtain c0 p' where att: "chord_attempt s rs mn mx pos = (c0, p')"
    by (cases "chord_attempt s rs mn mx pos")
  with Suc.prems have "c = c0 \<or> c \<in> set (chord_passes k s rs mn mx p')" by simp
  then show ?case
  proof
    assume "c = c0"
    with att have "fst (chord_attempt s rs mn mx pos) = c" by simp
    then show ?thesis by blast
  next
    assume "c \<in> set (chord_passes k s rs mn mx p')"
    then show ?thesis by (rule Suc.IH)
  qed
qed

lemma stored_chord_of_pass:
  assumes "unit_draws rs"
    and "map (\<lambda>it. Some (map midi (item_notes it))) items = chord_passes k s rs (clef_min s) (clef_max s) pos0"
    and "it \<in> set items"
  shows "\<exists>pos ms p'.
      chord_attempt s rs (clef_min s) (clef_max s) pos = (Some ms, p')
      \<and> map midi (item_notes it) = ms
      \<and> length (item_notes it)
           = (if rs (snd (getValidRandomMidi (isValidNote s) rs (clef_min s)
                            (clef_max s - 11) pos)) > round_double (7 / 10)
              then 4 else 3)"
proof -
  from assms(3) have "Some (map midi (item_notes it)) \<in> set (map (\<lambda>it. Some (map midi (item_notes it))) items)"
    by (simp add: image_iff) blast
  with assms(2) have "Some (map midi (item_notes it))
      \<in> set (chord_passes k s rs (clef_min s) (clef_max s) pos0)"
    by simp
  from chord_passes_mem[OF this] obtain pos where
    p: "fst (chord_attempt s rs (clef_min s) (clef_max s) pos) = Some (map midi (item_notes it))"
    by blast
  from chord_attempt_accepts_lower[OF assms(1) clef_range(1,2)[of s], of s pos] obtain ms p' where
    att: "chord_attempt s rs (clef_min s) (clef_max s) pos = (Some ms, p')"
    and len: "length ms
           = (if rs (snd (getValidRandomMidi (isValidNote s) rs (clef_min s)
                            (clef_max s - 11) pos)) > round_double (7 / 10)
              then 4 else 3)"
    by blast
  from p att have ms: "map midi (item_notes it) = ms" by simp
  then have "length (item_notes it) = length ms" by (metis length_map)
  with att ms len show ?thesis by auto
qed

text \<open>Claim C9. In strict mode, from a diatonic root of any major or natural-minor key, exactly
  one of +3 and +4 is diatonic, +7 or +6 is diatonic, and one of +11, +10, +9 is diatonic; so the
  strict construction never omits a note and never asks for a retry, and the revalidation of
  the pitches never fails. Every pass of the chord loop is accepted with 3 pitches, or 4 when
  the seventh flag is set. The pitches of the six stored items are, in order, the chords of the
  six passes: every strict-mode chord item is the chord of a pass, with exactly 4 notes when the
  seventh flag of that pass is set and exactly 3 otherwise.\<close>

theorem strict_chord_branches_unreachable:
  assumes "unit_draws rs" and "\<not> useAccidentals s"
  shows "(\<forall>r t x. 0 \<le> x \<and> js_rem x 12 \<in> set (getScalePitchClasses r t) \<longrightarrow>
            ((js_rem (x + 3) 12 \<in> set (getScalePitchClasses r t))
               \<noteq> (js_rem (x + 4) 12 \<in> set (getScalePitchClasses r t)))
            \<and> (js_rem (x + 7) 12 \<in> set (getScalePitchClasses r t)
                 \<or> js_rem (x + 6) 12 \<in> set (getScalePitchClasses r t))
            \<and> (js_rem (x + 11) 12 \<in> set (getScalePitchClasses r t)
                 \<or> js_rem (x + 10) 12 \<in> set (getScalePitchClasses r t)
                 \<or> js_rem (x + 9) 12 \<in> set (getScalePitchClasses r t))
            \<and> (\<forall>f. \<exists>ms. diatonic_chord (getScalePitchClasses r t) x f = Some ms
                   \<and> length ms = (if f then 4 else 3)
                   \<and> (\<forall>m \<in> set ms. js_rem m 12 \<in> set (getScalePitchClasses r t))))
    \<and> (\<forall>pos. \<exists>ms p'. chord_attempt s rs (clef_min s) (clef_max s) pos = (Some ms, p')
           \<and> (\<forall>m \<in> set ms. isValidNote s m)
           \<and> length ms
                = (if rs (snd (getValidRandomMidi (isValidNote s) rs (clef_min s)
                                 (clef_max s - 11) pos)) > round_double (7 / 10)
                   then 4 else 3))
    \<and> (mode s = chords \<longrightarrow>
         (\<exists>items. generateExercise 6 rs ids s = Some (Inr items) \<and> length items = 6
            \<and> map (\<lambda>it. Some (map midi (item_notes it))) items
                = chord_passes 6 s rs (clef_min s) (clef_max s) 0
            \<and> (\<forall>it \<in> set items. \<exists>pos ms p'.
                  chord_attempt s rs (clef_min s) (clef_max s) pos = (Some ms, p')
                  \<and> map midi (item_notes it) = ms
                  \<and> length (item_notes it)
                       = (if rs (snd (getValidRandomMidi (isValidNote s) rs (clef_min s)
                                            (clef_max s - 11) pos)) > round_double (7 / 10)
                              then 4 else 3))
            \<and> (\<forall>it \<in> set items. length (item_notes it) = 3 \<or> length (item_notes it) = 4)))"
proof (intro conjI allI impI)
  fix r t x
  assume a: "0 \<le> x \<and> js_rem x 12 \<in> set (getScalePitchClasses r t)"
  then have x: "0 \<le> x" and d: "js_rem x 12 \<in> set (getScalePitchClasses r t)" by simp_all
  show "(js_rem (x + 3) 12 \<in> set (getScalePitchClasses r t))
               \<noteq> (js_rem (x + 4) 12 \<in> set (getScalePitchClasses r t))"
    by (rule scale_third(1)[OF x d])
  show "js_rem (x + 7) 12 \<in> set (getScalePitchClasses r t)
                 \<or> js_rem (x + 6) 12 \<in> set (getScalePitchClasses r t)"
    by (rule scale_third(2)[OF x d])
  show "js_rem (x + 11) 12 \<in> set (getScalePitchClasses r t)
                 \<or> js_rem (x + 10) 12 \<in> set (getScalePitchClasses r t)
                 \<or> js_rem (x + 9) 12 \<in> set (getScalePitchClasses r t)"
    by (rule scale_third(3)[OF x d])
  show "\<exists>ms. diatonic_chord (getScalePitchClasses r t) x f = Some ms
                   \<and> length ms = (if f then 4 else 3)
                   \<and> (\<forall>m \<in> set ms. js_rem m 12 \<in> set (getScalePitchClasses r t))" for f
    by (rule diatonic_chord_complete[OF x d])
next
  fix pos
  from chord_attempt_accepts_lower[OF assms(1) clef_range(1,2)[of s], of s pos] obtain ms p' where
    att: "chord_attempt s rs (clef_min s) (clef_max s) pos = (Some ms, p')"
    and d: "\<forall>m \<in> set ms. 0 \<le> m \<and> isValidNote s m"
    and len: "length ms
                = (if rs (snd (getValidRandomMidi (isValidNote s) rs (clef_min s)
                                 (clef_max s - 11) pos)) > round_double (7 / 10)
                   then 4 else 3)"
    by blast
  from d have "\<forall>m \<in> set ms. isValidNote s m"
    by blast
  with att len
  show "\<exists>ms p'. chord_attempt s rs (clef_min s) (clef_max s) pos = (Some ms, p')
           \<and> (\<forall>m \<in> set ms. isValidNote s m)
           \<and> length ms
                = (if rs (snd (getValidRandomMidi (isValidNote s) rs (clef_min s)
                                 (clef_max s - 11) pos)) > round_double (7 / 10)
                   then 4 else 3)"
    by blast
next
  assume m: "mode s = chords"
  from generateExercise_total[OF assms(1), of ids s] m obtain items where
    r: "generateExercise 6 rs ids s = Some (Inr items)" "length items = 6"
       "map (\<lambda>it. Some (map midi (item_notes it))) items = chord_passes 6 s rs (clef_min s) (clef_max s) 0"
    by blast
  have pass: "(\<forall>it \<in> set items. \<exists>pos ms p'.
          chord_attempt s rs (clef_min s) (clef_max s) pos = (Some ms, p')
          \<and> map midi (item_notes it) = ms
          \<and> length (item_notes it)
               = (if rs (snd (getValidRandomMidi (isValidNote s) rs (clef_min s)
                                    (clef_max s - 11) pos)) > round_double (7 / 10)
                      then 4 else 3))"
    using stored_chord_of_pass[OF assms(1) r(3)] by blast
  have l34: "\<forall>it \<in> set items. length (item_notes it) = 3 \<or> length (item_notes it) = 4"
  proof
    fix it assume "it \<in> set items"
    with pass obtain pos where
      "length (item_notes it)
         = (if rs (snd (getValidRandomMidi (isValidNote s) rs (clef_min s)
                          (clef_max s - 11) pos)) > round_double (7 / 10)
            then 4 else 3)"
      by blast
    then show "length (item_notes it) = 3 \<or> length (item_notes it) = 4"
      by (simp split: if_splits)
  qed
  from r(1,2,3) pass l34
  show "\<exists>items. generateExercise 6 rs ids s = Some (Inr items) \<and> length items = 6
            \<and> map (\<lambda>it. Some (map midi (item_notes it))) items
                = chord_passes 6 s rs (clef_min s) (clef_max s) 0
            \<and> (\<forall>it \<in> set items. \<exists>pos ms p'.
                  chord_attempt s rs (clef_min s) (clef_max s) pos = (Some ms, p')
                  \<and> map midi (item_notes it) = ms
                  \<and> length (item_notes it)
                       = (if rs (snd (getValidRandomMidi (isValidNote s) rs (clef_min s)
                                            (clef_max s - 11) pos)) > round_double (7 / 10)
                              then 4 else 3))
            \<and> (\<forall>it \<in> set items. length (item_notes it) = 3 \<or> length (item_notes it) = 4)"
    by blast
qed

theorem strict_chord_branches_unreachable_witness:
  "unit_draws (cycle_draws draws_b)
   \<and> \<not> useAccidentals \<lparr>clef = bass, useAccidentals = False, mode = chords, keyRoot = Key_Cb,
                          keyType = major\<rparr>
   \<and> (\<exists>items. generateExercise 6 (cycle_draws draws_b) (\<lambda>k. [])
          \<lparr>clef = bass, useAccidentals = False, mode = chords, keyRoot = Key_Cb,
            keyType = major\<rparr> = Some (Inr items)
        \<and> map (\<lambda>it. Some (map midi (item_notes it))) items
            = [Some [46, 49, 52], Some [32, 35, 39, 42], Some [46, 49, 52],
               Some [32, 35, 39, 42], Some [46, 49, 52], Some [32, 35, 39, 42]])"
proof -
  let ?s = "\<lparr>clef = bass, useAccidentals = False, mode = chords, keyRoot = Key_Cb,
             keyType = major\<rparr>"
  note u = double_draws_unit[OF double_draws_b]
  have st: "\<not> useAccidentals ?s" by simp
  have m: "mode ?s = chords" by simp
  have ev: "chord_passes 6 ?s (cycle_draws draws_b) (clef_min ?s) (clef_max ?s) 0
            = [Some [46, 49, 52], Some [32, 35, 39, 42], Some [46, 49, 52],
               Some [32, 35, 39, 42], Some [46, 49, 52], Some [32, 35, 39, 42]]"
    by code_simp
  from strict_chord_branches_unreachable[OF u st, of "\<lambda>k. []"] m obtain items where
    "generateExercise 6 (cycle_draws draws_b) (\<lambda>k. []) ?s = Some (Inr items)"
    "map (\<lambda>it. Some (map midi (item_notes it))) items
       = chord_passes 6 ?s (cycle_draws draws_b) (clef_min ?s) (clef_max ?s) 0"
    by blast
  with ev u show ?thesis by simp
qed

section \<open>The chord construction\<close>

text \<open>Claim C6. The chord construction is the one the specification describes. The root is a
  valid random pitch between \<open>min\<close> and \<open>max - 11\<close>. In strict mode the pitches are those of
  \<open>spec_strict_chord\<close> (third +3 if diatonic, else +4 if diatonic, else no chord; fifth +7, else
  +6, else omitted; with the seventh flag +11, else +10, else +9, else omitted), and a pass with
  no chord is discarded: the loop goes on with the same index, the same items and a new root. In
  chromatic mode the pitches are those of \<open>spec_chromatic_chord\<close> (root, a third chosen by a
  coin, +7, and with the seventh flag a seventh chosen by a coin). The pitches of the six
  stored items are, in order, the chords of the six passes: each item holds the chord that one
  pass of the construction accepted, with the seventh flag of that pass.\<close>

theorem chord_construction:
  assumes "double_draws rs"
  shows "(\<forall>dia croot f. 0 \<le> croot \<longrightarrow>
            diatonic_chord dia croot f = spec_strict_chord dia croot f)
    \<and> (\<forall>croot f pos. chromatic_chord rs croot f pos
           = (spec_chromatic_chord croot (rs pos > 1 / 2) f (rs (pos + 1) > 1 / 2),
              pos + (if f then 2 else 1)))
    \<and> (\<forall>pos. \<exists>croot p1.
           getValidRandomMidi (isValidNote s) rs (clef_min s) (clef_max s - 11) pos = (croot, p1)
           \<and> clef_min s \<le> croot \<and> croot \<le> clef_max s - 11 \<and> isValidNote s croot
           \<and> chord_attempt s rs (clef_min s) (clef_max s) pos
               = (if \<not> useAccidentals s then
                    (case spec_strict_chord (getScalePitchClasses (keyRoot s) (keyType s)) croot
                            (rs p1 > round_double (7 / 10)) of
                       None \<Rightarrow> (None, p1 + 1)
                     | Some ms \<Rightarrow>
                         if \<exists>m \<in> set ms. \<not> isValidNote s m then (None, p1 + 1)
                         else (Some ms, p1 + 1))
                  else (Some (spec_chromatic_chord croot (rs (p1 + 1) > 1 / 2) (rs p1 > round_double (7 / 10))
                                (rs (p1 + 2) > 1 / 2)),
                        p1 + 1 + (if rs p1 > round_double (7 / 10) then 2 else 1))))
    \<and> (\<forall>fuel mn mx i items pos p'.
           i < 6 \<and> chord_attempt s rs mn mx pos = (None, p') \<longrightarrow>
           chords_loop (Suc fuel) s rs ids mn mx i items pos
             = chords_loop fuel s rs ids mn mx i items p')
    \<and> (mode s = chords \<longrightarrow>
         (\<exists>items. generateExercise 6 rs ids s = Some (Inr items) \<and> length items = 6
            \<and> map (\<lambda>it. Some (map midi (item_notes it))) items
                = chord_passes 6 s rs (clef_min s) (clef_max s) 0
            \<and> (\<forall>it \<in> set items.
                  described_chord s (clef_min s) (clef_max s) (map midi (item_notes it))
                  \<and> (\<exists>pos p'. chord_attempt s rs (clef_min s) (clef_max s) pos
                                   = (Some (map midi (item_notes it)), p')))))"
proof (intro conjI allI impI)
  show "diatonic_chord dia croot f = spec_strict_chord dia croot f" if "0 \<le> croot"
    for dia croot f
    by (rule diatonic_chord_spec[OF that])
  show "chromatic_chord rs croot f pos
           = (spec_chromatic_chord croot (rs pos > 1 / 2) f (rs (pos + 1) > 1 / 2),
              pos + (if f then 2 else 1))" for croot f pos
    by (rule chromatic_chord_spec)
next
  fix pos
  obtain croot p1 where
    g: "getValidRandomMidi (isValidNote s) rs (clef_min s) (clef_max s - 11) pos = (croot, p1)"
    by (cases "getValidRandomMidi (isValidNote s) rs (clef_min s) (clef_max s - 11) pos")
  have w: "clef_min s + 11 \<le> clef_max s - 11" using clef_range(2)[of s] by simp
  from valid_random_pitch[OF assms clef_range(1)[of s] w, of s pos] g
  have c: "clef_min s \<le> croot" "croot \<le> clef_max s - 11" "isValidNote s croot" by simp_all
  have nn: "0 \<le> croot" using c(1) clef_range(1)[of s] by simp
  from chord_attempt_unfold[OF g nn] g c
  show "\<exists>croot p1.
           getValidRandomMidi (isValidNote s) rs (clef_min s) (clef_max s - 11) pos = (croot, p1)
           \<and> clef_min s \<le> croot \<and> croot \<le> clef_max s - 11 \<and> isValidNote s croot
           \<and> chord_attempt s rs (clef_min s) (clef_max s) pos
               = (if \<not> useAccidentals s then
                    (case spec_strict_chord (getScalePitchClasses (keyRoot s) (keyType s)) croot
                            (rs p1 > round_double (7 / 10)) of
                       None \<Rightarrow> (None, p1 + 1)
                     | Some ms \<Rightarrow>
                         if \<exists>m \<in> set ms. \<not> isValidNote s m then (None, p1 + 1)
                         else (Some ms, p1 + 1))
                  else (Some (spec_chromatic_chord croot (rs (p1 + 1) > 1 / 2) (rs p1 > round_double (7 / 10))
                                (rs (p1 + 2) > 1 / 2)),
                        p1 + 1 + (if rs p1 > round_double (7 / 10) then 2 else 1)))"
    by blast
next
  fix fuel mn mx and i :: int and items pos p'
  assume "i < 6 \<and> chord_attempt s rs mn mx pos = (None, p')"
  then show "chords_loop (Suc fuel) s rs ids mn mx i items pos
             = chords_loop fuel s rs ids mn mx i items p'"
    by simp
next
  assume m: "mode s = chords"
  from generateExercise_chords(1)[OF assms m order_refl, of ids] obtain items where
    r: "generateExercise 6 rs ids s = Some (Inr items)" "length items = 6"
       "list_all (chord_item s (clef_min s) (clef_max s)) items"
       "map (\<lambda>it. Some (map midi (item_notes it))) items = chord_passes 6 s rs (clef_min s) (clef_max s) 0"
    by blast
  have "\<forall>it \<in> set items.
          described_chord s (clef_min s) (clef_max s) (map midi (item_notes it))
          \<and> (\<exists>pos p'. chord_attempt s rs (clef_min s) (clef_max s) pos
                           = (Some (map midi (item_notes it)), p'))"
  proof
    fix it assume it: "it \<in> set items"
    with r(3) have "described_chord s (clef_min s) (clef_max s) (map midi (item_notes it))"
      by (simp add: list_all_iff chord_item_def)
    moreover from stored_chord_of_pass[OF double_draws_unit[OF assms] r(4) it]
    have "\<exists>pos p'. chord_attempt s rs (clef_min s) (clef_max s) pos
                     = (Some (map midi (item_notes it)), p')"
      by blast
    ultimately show "described_chord s (clef_min s) (clef_max s) (map midi (item_notes it))
          \<and> (\<exists>pos p'. chord_attempt s rs (clef_min s) (clef_max s) pos
                           = (Some (map midi (item_notes it)), p'))"
      by blast
  qed
  with r(1,2,4)
  show "\<exists>items. generateExercise 6 rs ids s = Some (Inr items) \<and> length items = 6
            \<and> map (\<lambda>it. Some (map midi (item_notes it))) items
                = chord_passes 6 s rs (clef_min s) (clef_max s) 0
            \<and> (\<forall>it \<in> set items.
                  described_chord s (clef_min s) (clef_max s) (map midi (item_notes it))
                  \<and> (\<exists>pos p'. chord_attempt s rs (clef_min s) (clef_max s) pos
                                   = (Some (map midi (item_notes it)), p')))"
    by blast
qed

theorem chord_construction_witness:
  "double_draws (cycle_draws draws_a)
   \<and> map_option (map_sum id (map (map midi \<circ> item_notes)))
        (generateExercise 6 (cycle_draws draws_a) (\<lambda>k. [])
           \<lparr>clef = bass, useAccidentals = True, mode = chords, keyRoot = Key_Gb,
             keyType = minor\<rparr>)
       = Some (Inr [[48, 51, 55], [53, 56, 60], [50, 53, 57], [41, 44, 48, 51], [50, 53, 57],
                    [41, 44, 48, 51]])
   \<and> diatonic_chord [0, 2, 4, 5, 7, 9, 11] 59 True = Some [59, 62, 65, 69]
   \<and> diatonic_chord [0, 4, 8] 62 True = None"
proof -
  let ?s = "\<lparr>clef = bass, useAccidentals = True, mode = chords, keyRoot = Key_Gb,
             keyType = minor\<rparr>"
  note u = double_draws_a
  have ev: "map_option (map_sum id (map (map midi \<circ> item_notes)))
        (generateExercise 6 (cycle_draws draws_a) (\<lambda>k. []) ?s)
       = Some (Inr [[48, 51, 55], [53, 56, 60], [50, 53, 57], [41, 44, 48, 51], [50, 53, 57],
                    [41, 44, 48, 51]])"
    by code_simp
  from chord_construction[OF u, of ?s "\<lambda>k. []"]
  have sp: "diatonic_chord dia croot f = spec_strict_chord dia croot f" if "0 \<le> croot"
    for dia croot f
    using that by blast
  have "diatonic_chord [0, 2, 4, 5, 7, 9, 11] 59 True = Some [59, 62, 65, 69]"
    by (subst sp) (simp_all add: spec_strict_chord_def spec_third_def spec_fifth_def
                     spec_seventh_def)
  moreover have "diatonic_chord [0, 4, 8] 62 True = None"
    by (subst sp) (simp_all add: spec_strict_chord_def spec_third_def)
  ultimately show ?thesis using u ev by simp
qed

section \<open>Beam mode: the shape of the output\<close>

lemma beam_items_index:
  "list_all (beam_item s mn mx g) its \<Longrightarrow>
     map beamGroupIndex its = replicate (length its) (Some g)"
  by (induction its) (auto simp add: beam_item_def)

lemma beam_groups_indices:
  "beam_groups s mn mx g zs its \<Longrightarrow> \<forall>z \<in> set zs. 0 \<le> z \<Longrightarrow>
     map beamGroupIndex its = group_indices g zs \<and> int (length its) = sum_list zs"
proof (induction zs arbitrary: g its)
  case Nil
  then show ?case by simp
next
  case (Cons z zs)
  let ?a = "take (nat z) its" and ?b = "drop (nat z) its"
  from Cons.prems have le: "nat z \<le> length its" and a: "list_all (beam_item s mn mx g) ?a"
    and b: "beam_groups s mn mx (g + 1) zs ?b" and z: "0 \<le> z" and zs: "\<forall>z \<in> set zs. 0 \<le> z"
    by simp_all
  have la: "length ?a = nat z" using le by simp
  from beam_items_index[OF a] la have ia: "map beamGroupIndex ?a = replicate (nat z) (Some g)"
    by simp
  from Cons.IH[OF b zs]
  have ib: "map beamGroupIndex ?b = group_indices (g + 1) zs" "int (length ?b) = sum_list zs"
    by simp_all
  have "map beamGroupIndex its = map beamGroupIndex ?a @ map beamGroupIndex ?b"
    by (simp only: map_append[symmetric] append_take_drop_id)
  then have "map beamGroupIndex its = group_indices g (z # zs)" using ia ib(1) by simp
  moreover have "length its = length ?a + length ?b"
    by (simp only: length_append[symmetric] append_take_drop_id)
  then have "int (length its) = sum_list (z # zs)" using la ib(2) z by simp
  ultimately show ?case by simp
qed

text \<open>Claim C7. Beam mode returns 3 or 4 groups (the number drawn by \<open>getRandomInt(3, 4)\<close>), each
  of a drawn size from 4 to 6; the number of items is the sum of the group sizes; the
  \<open>beamGroupIndex\<close> values of the items are 0 for the items of the first group, 1 for those of the
  second, and so on; every item is marked as a beam group and has exactly one note, of duration
  '16'.\<close>

theorem beam_mode_shape:
  assumes "double_draws rs" and "mode s = beams"
  shows "\<exists>items sizes. generateExercise fuel rs ids s = Some (Inr items)
      \<and> int (length sizes) = getRandomInt (rs 0) 3 4
      \<and> (length sizes = 3 \<or> length sizes = 4)
      \<and> (\<forall>z \<in> set sizes. 4 \<le> z \<and> z \<le> 6 \<and> (\<exists>p. z = getRandomInt (rs p) 4 6))
      \<and> int (length items) = sum_list sizes
      \<and> map beamGroupIndex items = group_indices 0 sizes
      \<and> (\<forall>it \<in> set items. isBeamGroup it = Some True
            \<and> (\<exists>n. item_notes it = [n] \<and> duration n = Some Dur_16))"
proof -
  from generateExercise_beams[OF assms, of fuel ids] obtain items sizes where
    gen: "generateExercise fuel rs ids s = Some (Inr items)"
    and ng: "int (length sizes) = getRandomInt (rs 0) 3 4" "length sizes = 3 \<or> length sizes = 4"
    and sz: "list_all (\<lambda>z. 4 \<le> z \<and> z \<le> 6 \<and> (\<exists>p. z = getRandomInt (rs p) 4 6)) sizes"
    and grp: "beam_groups s (clef_min s) (clef_max s) 0 sizes items"
    by blast
  from sz have sz': "\<forall>z \<in> set sizes. 4 \<le> z \<and> z \<le> 6 \<and> (\<exists>p. z = getRandomInt (rs p) 4 6)"
    by (simp add: list_all_iff)
  then have "\<forall>z \<in> set sizes. 0 \<le> z" by auto
  from beam_groups_indices[OF grp this]
  have idx: "map beamGroupIndex items = group_indices 0 sizes"
    and len: "int (length items) = sum_list sizes"
    by simp_all
  have "list_all (\<lambda>it. isBeamGroup it = Some True
            \<and> (\<exists>n. item_notes it = [n] \<and> duration n = Some Dur_16)) items"
  proof (rule beam_groups_items[OF _ grp])
    fix g it
    assume "beam_item s (clef_min s) (clef_max s) g it"
    then obtain n where "item_notes it = [n\<lparr>duration := Some Dur_16\<rparr>]"
      "isBeamGroup it = Some True"
      unfolding beam_item_def by blast
    then show "isBeamGroup it = Some True \<and> (\<exists>n. item_notes it = [n] \<and> duration n = Some Dur_16)"
      by simp
  qed
  then have nts: "\<forall>it \<in> set items. isBeamGroup it = Some True
            \<and> (\<exists>n. item_notes it = [n] \<and> duration n = Some Dur_16)"
    by (simp add: list_all_iff)
  from gen ng sz' len idx nts show ?thesis by blast
qed

theorem beam_mode_shape_witness:
  "double_draws (cycle_draws draws_c)
   \<and> mode \<lparr>clef = treble, useAccidentals = True, mode = beams, keyRoot = Key_Gb,
            keyType = minor\<rparr> = beams
   \<and> (\<exists>items. generateExercise 0 (cycle_draws draws_c) (\<lambda>k. [])
          \<lparr>clef = treble, useAccidentals = True, mode = beams, keyRoot = Key_Gb,
            keyType = minor\<rparr> = Some (Inr items)
        \<and> map beamGroupIndex items = group_indices 0 [5, 6, 4, 4]
        \<and> map (map midi \<circ> item_notes) items
            = [[84], [68], [57], [71], [65], [68], [57], [71], [65], [84], [68], [71], [65],
               [84], [68], [71], [65], [84], [68]])"
proof -
  let ?s = "\<lparr>clef = treble, useAccidentals = True, mode = beams, keyRoot = Key_Gb,
             keyType = minor\<rparr>"
  note u = double_draws_c
  have m: "mode ?s = beams" by simp
  have ev: "map_option (map_sum id (\<lambda>items. (map beamGroupIndex items,
                                              map (map midi \<circ> item_notes) items)))
              (generateExercise 0 (cycle_draws draws_c) (\<lambda>k. []) ?s)
            = Some (Inr (group_indices 0 [5, 6, 4, 4],
                 [[84], [68], [57], [71], [65], [68], [57], [71], [65], [84], [68], [71], [65],
                  [84], [68], [71], [65], [84], [68]]))"
    by code_simp
  from beam_mode_shape[OF u m, of 0 "\<lambda>k. []"] obtain items where
    "generateExercise 0 (cycle_draws draws_c) (\<lambda>k. []) ?s = Some (Inr items)" by blast
  with ev u show ?thesis by simp
qed

section \<open>The judge's order on chord items\<close>

declare nat_digits.simps [simp del]

lemma below10_disj:
  "(d::nat) < 10 \<Longrightarrow>
     d = 0 \<or> d = 1 \<or> d = 2 \<or> d = 3 \<or> d = 4 \<or> d = 5 \<or> d = 6 \<or> d = 7 \<or> d = 8 \<or> d = 9"
  by arith

lemma of_char_DIGITS: "d < 10 \<Longrightarrow> (of_char (DIGITS ! d) :: nat) = 48 + d"
  by (drule below10_disj) (elim disjE; simp add: DIGITS_def)

lemma DIGITS_less: "a < 10 \<Longrightarrow> b < 10 \<Longrightarrow> (DIGITS ! a < DIGITS ! b) = (a < b)"
  by (simp add: less_char_def of_char_DIGITS)

lemma DIGITS_eq: "a < 10 \<Longrightarrow> b < 10 \<Longrightarrow> (DIGITS ! a = DIGITS ! b) = (a = b)"
proof -
  assume a: "a < 10" "b < 10"
  have "(DIGITS ! a = DIGITS ! b) = ((of_char (DIGITS ! a) :: nat) = of_char (DIGITS ! b))"
    by simp
  also have "\<dots> = (a = b)" using a by (simp only: of_char_DIGITS) simp
  finally show ?thesis .
qed

lemma two_digits:
  assumes "10 \<le> i" "i \<le> 99"
  shows "js_toString i = [DIGITS ! (nat i div 10), DIGITS ! (nat i mod 10)]"
proof -
  have n: "\<not> nat i < 10" "nat i div 10 < 10" using assms by simp_all
  have "nat_digits (nat i) = nat_digits (nat i div 10) @ [DIGITS ! (nat i mod 10)]"
    using n(1) by (subst nat_digits.simps) simp
  also have "nat_digits (nat i div 10) = [DIGITS ! (nat i div 10)]"
    using n(2) by (subst nat_digits.simps) simp
  finally show ?thesis using assms by (simp add: js_toString_def)
qed

lemma lex_pair_le:
  fixes q1 r1 q2 r2 :: nat
  assumes "r1 < 10" "r2 < 10"
  shows "(q1 < q2 \<or> q1 = q2 \<and> r1 \<le> r2) = (10 * q1 + r1 \<le> 10 * q2 + r2)"
  using assms by arith

lemma div_mod_10_le:
  fixes n m :: nat
  shows "(n div 10 < m div 10 \<or> n div 10 = m div 10 \<and> n mod 10 \<le> m mod 10) = (n \<le> m)"
proof -
  have "n mod 10 < 10" "m mod 10 < 10" by simp_all
  from lex_pair_le[OF this, of "n div 10" "m div 10"] show ?thesis by simp
qed

lemma two_digit_order:
  assumes "10 \<le> a" "a \<le> 99" "10 \<le> b" "b \<le> 99"
  shows "(js_toString a \<le> js_toString b) = (a \<le> b)"
proof -
  let ?n = "nat a" and ?m = "nat b"
  have r: "?n div 10 < 10" "?n mod 10 < 10" "?m div 10 < 10" "?m mod 10 < 10"
    using assms by simp_all
  have "(js_toString a \<le> js_toString b)
      = (?n div 10 < ?m div 10 \<or> ?n div 10 = ?m div 10 \<and> ?n mod 10 \<le> ?m mod 10)"
    by (auto simp add: two_digits[OF assms(1,2)] two_digits[OF assms(3,4)] DIGITS_less[OF r(1,3)]
          DIGITS_eq[OF r(1,3)] DIGITS_less[OF r(2,4)] DIGITS_eq[OF r(2,4)] le_less)
  also have "\<dots> = (?n \<le> ?m)" by (rule div_mod_10_le)
  also have "\<dots> = (a \<le> b)" using assms by (intro nat_le_eq_zle) simp
  finally show ?thesis .
qed

lemma insort_key_embedding:
  "\<forall>y \<in> set ys. (f x \<le> f y) = (x \<le> y) \<Longrightarrow> insort_key f x ys = insort x ys"
  by (induction ys) simp_all

lemma sort_key_embedding:
  "\<forall>x \<in> set xs. \<forall>y \<in> set xs. (f x \<le> f y) = (x \<le> y) \<Longrightarrow> sort_key f xs = sort xs"
proof (induction xs)
  case Nil
  show ?case by simp
next
  case (Cons x xs)
  then have ih: "sort_key f xs = sort xs" by simp
  have "\<forall>y \<in> set (sort xs). (f x \<le> f y) = (x \<le> y)" using Cons.prems by simp
  from insort_key_embedding[OF this] ih show ?case by (simp add: sort_key_simps)
qed

lemma two_digit_sort:
  assumes "\<forall>x \<in> set xs. 10 \<le> x \<and> x \<le> 99"
  shows "js_default_sort xs = sort xs"
  unfolding js_default_sort_def
  by (rule sort_key_embedding) (use assms two_digit_order in blast)

lemma chord_item_sorted:
  assumes "chord_item s (clef_min s) (clef_max s) it"
  shows "(\<forall>n \<in> set (item_notes it). 29 \<le> midi n \<and> midi n \<le> 88)
    \<and> sorted_wrt (<) (map midi (item_notes it))"
proof -
  from assms have d: "described_chord s (clef_min s) (clef_max s) (map midi (item_notes it))"
    by (simp add: chord_item_def)
  from described_chord_shape[OF d clef_range(1)] obtain croot third fifth sev where
    eq: "map midi (item_notes it) = [croot, third, fifth] @ sev"
    and c: "clef_min s \<le> croot" "croot \<le> clef_max s - 11"
    and t: "third = croot + 3 \<or> third = croot + 4"
    and f: "fifth = croot + 6 \<or> fifth = croot + 7"
    and v: "sev = [] \<or> sev = [croot + 10] \<or> sev = [croot + 11]"
    by blast
  have srt: "sorted_wrt (<) ([croot, third, fifth] @ sev)" using t f v by auto
  have "29 \<le> clef_min s" "clef_max s \<le> 88" using clef_range_cases[of s] by auto
  with c t f v have "\<forall>m \<in> set ([croot, third, fifth] @ sev). 29 \<le> m \<and> m \<le> 88" by auto
  then have "\<forall>m \<in> set (map midi (item_notes it)). 29 \<le> m \<and> m \<le> 88"
    by (simp only: eq)
  then have "\<forall>n \<in> set (item_notes it). 29 \<le> midi n \<and> midi n \<le> 88" by simp
  with srt eq show ?thesis by simp
qed

text \<open>Claim C8. For every generated chord item the order in which the judge compares the target
  pitches, that of JavaScript's default sort on their decimal strings, is the ascending numeric
  order: the pitches lie in [29, 88], where (as for all lists of two-digit numbers) the default
  sort is the numeric sort, and the notes of the chord are already stored in ascending order
  of pitch.\<close>

theorem chord_order_matches_judge:
  assumes "double_draws rs" and "mode s = chords"
  shows "(\<exists>items. generateExercise 6 rs ids s = Some (Inr items) \<and> length items = 6
           \<and> (\<forall>it \<in> set items.
                 (\<forall>n \<in> set (item_notes it). 29 \<le> midi n \<and> midi n \<le> 88)
                 \<and> targetMidis it = sort (map midi (item_notes it))
                 \<and> sorted_wrt (<) (map midi (item_notes it))
                 \<and> targetMidis it = map midi (item_notes it)))
    \<and> (\<forall>xs. (\<forall>x \<in> set xs. 10 \<le> x \<and> x \<le> 99) \<longrightarrow> js_default_sort xs = sort xs)"
proof -
  from generateExercise_chords(1)[OF assms order_refl, of ids] obtain items where
    r: "generateExercise 6 rs ids s = Some (Inr items)" "length items = 6"
       "list_all (chord_item s (clef_min s) (clef_max s)) items"
    by blast
  have "(\<forall>n \<in> set (item_notes it). 29 \<le> midi n \<and> midi n \<le> 88)
                 \<and> targetMidis it = sort (map midi (item_notes it))
                 \<and> sorted_wrt (<) (map midi (item_notes it))
                 \<and> targetMidis it = map midi (item_notes it)"
    if "it \<in> set items" for it
  proof -
    from r(3) that have "chord_item s (clef_min s) (clef_max s) it" by (simp add: list_all_iff)
    from chord_item_sorted[OF this]
    have rng: "\<forall>n \<in> set (item_notes it). 29 \<le> midi n \<and> midi n \<le> 88"
      and srt: "sorted_wrt (<) (map midi (item_notes it))"
      by simp_all
    from rng have "\<forall>x \<in> set (map midi (item_notes it)). 10 \<le> x \<and> x \<le> 99" by auto
    from two_digit_sort[OF this] have js: "targetMidis it = sort (map midi (item_notes it))"
      by (simp add: targetMidis_def)
    from srt have "sort (map midi (item_notes it)) = map midi (item_notes it)"
      by (intro sorted_sort_id strict_sorted_imp_sorted)
    with rng srt js show ?thesis by simp
  qed
  with r(1,2) two_digit_sort show ?thesis by blast
qed

theorem chord_order_matches_judge_witness:
  "double_draws (cycle_draws draws_c)
   \<and> mode \<lparr>clef = bass, useAccidentals = False, mode = chords, keyRoot = Key_Gb,
            keyType = minor\<rparr> = chords
   \<and> (\<exists>items. generateExercise 6 (cycle_draws draws_c) (\<lambda>k. [])
          \<lparr>clef = bass, useAccidentals = False, mode = chords, keyRoot = Key_Gb,
            keyType = minor\<rparr> = Some (Inr items)
        \<and> map targetMidis items
            = [[38, 42, 45, 49], [32, 35, 38], [38, 42, 45, 49], [32, 35, 38],
               [38, 42, 45, 49], [32, 35, 38]])
   \<and> js_default_sort [100, 29, 9, 88] = [100, 29, 88, 9]"
proof -
  let ?s = "\<lparr>clef = bass, useAccidentals = False, mode = chords, keyRoot = Key_Gb,
             keyType = minor\<rparr>"
  note u = double_draws_c
  have m: "mode ?s = chords" by simp
  have ev: "map_option (map_sum id (map targetMidis))
              (generateExercise 6 (cycle_draws draws_c) (\<lambda>k. []) ?s)
            = Some (Inr [[38, 42, 45, 49], [32, 35, 38], [38, 42, 45, 49], [32, 35, 38],
                         [38, 42, 45, 49], [32, 35, 38]])"
    by code_simp
  have js: "js_default_sort [100, 29, 9, 88] = [100, 29, 88, 9]"
    by code_simp
  from chord_order_matches_judge[OF u m, of "\<lambda>k. []"] obtain items where
    "generateExercise 6 (cycle_draws draws_c) (\<lambda>k. []) ?s = Some (Inr items)" by blast
  with ev u js show ?thesis by simp
qed

end
